theory Spec2Isabelle
  imports Main
begin

section \<open>Bytes, buffers and text\<close>

text \<open>
  A Node \<open>Buffer\<close> is a sequence of octets. HOL's \<open>char\<close> is an 8-bit character, so
  a buffer is a \<open>char list\<close>. \<open>Buffer.toString()\<close> decodes UTF-8; the model keeps the
  text in its encoded form, which is exact for every comparison the source makes (the
  field names are ASCII, and a decoded string is empty exactly when the bytes are).
  Where the bytes are not valid UTF-8 the decoded text holds U+FFFD in their place; the
  model keeps the bytes.
\<close>

type_synonym byte = char

definition bom :: "byte list" where
  "bom = [CHR 0xEF, CHR 0xBB, CHR 0xBF]"

definition colon :: byte where
  "colon = CHR 0x3A"

definition space :: byte where
  "space = CHR 0x20"

definition lineFeed :: byte where
  "lineFeed = CHR 0x0A"

definition carriageReturn :: byte where
  "carriageReturn = CHR 0x0D"

text \<open>\<open>buf[i]\<close>: \<open>undefined\<close> (here \<open>None\<close>) outside the buffer.\<close>

definition byteAt :: "byte list \<Rightarrow> int \<Rightarrow> byte option" where
  "byteAt buf i = (if 0 \<le> i \<and> i < int (length buf) then Some (buf ! nat i) else None)"

definition hasBom :: "byte list \<Rightarrow> bool" where
  "hasBom buf = list_all (\<lambda>(index, charCode). byteAt buf (int index) = Some charCode) (enumerate 0 bom)"

text \<open>
  \<open>buf.slice(start, end)\<close>: a negative index counts from the end, both indices are
  clamped to the buffer, and an end before the start gives the empty buffer.
\<close>

definition clampIndex :: "nat \<Rightarrow> int \<Rightarrow> nat" where
  "clampIndex len k = (if k < 0 then nat (max (int len + k) 0) else min (nat k) len)"

definition slice :: "byte list \<Rightarrow> int \<Rightarrow> int \<Rightarrow> byte list" where
  "slice buf start end =
     (let s = clampIndex (length buf) start; e = clampIndex (length buf) end
      in take (e - s) (drop s buf))"

definition toString :: "byte list \<Rightarrow> string" where
  "toString bytes = bytes"

text \<open>
  The Numbers \<open>parseInt\<close> returns, \<open>NaN\<close> apart: an integer that a double holds exactly,
  \<open>-0\<close>, \<open>Infinity\<close> and \<open>-Infinity\<close>.
\<close>

datatype number = Finite int | NegativeZero | Infinity | NegativeInfinity

text \<open>
  The Number value for a non-negative integer: the integer itself below \<open>2^53\<close>; beyond,
  the nearest number with 53 significant bits, a tie going to the even one; \<open>Infinity\<close>
  (here \<open>None\<close>) from \<open>2^1024\<close> on.
\<close>

function bitLength :: "int \<Rightarrow> nat" where
  "bitLength n = (if n \<le> 0 then 0 else Suc (bitLength (n div 2)))"
  by pat_completeness auto
termination
  by (relation "measure nat") auto

declare bitLength.simps [simp del]

definition roundToDouble :: "int \<Rightarrow> int option" where
  "roundToDouble n =
     (if n < 2 ^ 53 then Some n
      else
        (let e = bitLength n - 53;
             q = n div 2 ^ e;
             r = n mod 2 ^ e;
             q' = (if 2 * r > 2 ^ e \<or> (2 * r = 2 ^ e \<and> odd q) then q + 1 else q)
         in if q' * 2 ^ e \<ge> 2 ^ 1024 then None else Some (q' * 2 ^ e)))"

text \<open>
  The white space and line terminators \<open>parseInt\<close> skips, in UTF-8 (the text is kept in
  its encoded form): U+0009 to U+000D, U+0020, U+00A0, U+1680, U+2000 to U+200A, U+2028,
  U+2029, U+202F, U+205F, U+3000 and U+FEFF.
\<close>

definition whiteSpace :: "string list" where
  "whiteSpace =
     [[CHR 0x09], [CHR 0x0A], [CHR 0x0B], [CHR 0x0C], [CHR 0x0D], [CHR 0x20],
      [CHR 0xC2, CHR 0xA0], [CHR 0xE1, CHR 0x9A, CHR 0x80],
      [CHR 0xE2, CHR 0x80, CHR 0x80], [CHR 0xE2, CHR 0x80, CHR 0x81],
      [CHR 0xE2, CHR 0x80, CHR 0x82], [CHR 0xE2, CHR 0x80, CHR 0x83],
      [CHR 0xE2, CHR 0x80, CHR 0x84], [CHR 0xE2, CHR 0x80, CHR 0x85],
      [CHR 0xE2, CHR 0x80, CHR 0x86], [CHR 0xE2, CHR 0x80, CHR 0x87],
      [CHR 0xE2, CHR 0x80, CHR 0x88], [CHR 0xE2, CHR 0x80, CHR 0x89],
      [CHR 0xE2, CHR 0x80, CHR 0x8A], [CHR 0xE2, CHR 0x80, CHR 0xA8],
      [CHR 0xE2, CHR 0x80, CHR 0xA9], [CHR 0xE2, CHR 0x80, CHR 0xAF],
      [CHR 0xE2, CHR 0x81, CHR 0x9F], [CHR 0xE3, CHR 0x80, CHR 0x80],
      [CHR 0xEF, CHR 0xBB, CHR 0xBF]]"

fun skipWhiteSpace :: "string \<Rightarrow> string" where
  "skipWhiteSpace [] = []"
| "skipWhiteSpace (c # cs) =
     (if [c] \<in> set whiteSpace then skipWhiteSpace cs
      else if take 2 (c # cs) \<in> set whiteSpace then skipWhiteSpace (drop 1 cs)
      else if take 3 (c # cs) \<in> set whiteSpace then skipWhiteSpace (drop 2 cs)
      else c # cs)"

text \<open>
  \<open>parseInt(value, 10)\<close>: leading white space is skipped, an optional sign is read, then
  the longest run of decimal digits; \<open>NaN\<close> (here \<open>None\<close>) when there is no digit.
  Otherwise the result is the Number value for the integer the digits write, with the
  sign (V8 rounds the integer itself; the language also allows an implementation to
  drop the digits after the 20th).
\<close>

definition isDigit :: "char \<Rightarrow> bool" where
  "isDigit c = (48 \<le> (of_char c :: nat) \<and> (of_char c :: nat) \<le> 57)"

definition digitsValue :: "string \<Rightarrow> int" where
  "digitsValue ds = foldl (\<lambda>acc c. 10 * acc + (of_char c - 48)) 0 ds"

definition parseInt10 :: "string \<Rightarrow> number option" where
  "parseInt10 str =
     (let t = skipWhiteSpace str;
          neg = (t \<noteq> [] \<and> hd t = CHR ''-'');
          u = (if t \<noteq> [] \<and> (hd t = CHR ''-'' \<or> hd t = CHR ''+'') then tl t else t);
          ds = takeWhile isDigit u
      in if ds = [] then None
         else if digitsValue ds = 0 then Some (if neg then NegativeZero else Finite 0)
         else (case roundToDouble (digitsValue ds) of
                 None \<Rightarrow> Some (if neg then NegativeInfinity else Infinity)
               | Some v \<Rightarrow> Some (Finite (if neg then - v else v))))"

section \<open>JavaScript values and the configuration\<close>

text \<open>
  A value of an option the caller supplies. \<open>JObject\<close> stands for any object or
  function (a certificate, a callback); the source only tests it and copies it.
\<close>

datatype jsval = JUndefined | JNull | JBool bool | JNumber int | JString string | JObject

fun truthy :: "jsval \<Rightarrow> bool" where
  "truthy JUndefined = False"
| "truthy JNull = False"
| "truthy (JBool b) = b"
| "truthy (JNumber n) = (n \<noteq> 0)"
| "truthy (JString str) = (str \<noteq> [])"
| "truthy JObject = True"

definition httpsOptions :: "string list" where
  "httpsOptions =
     [''pfx'', ''key'', ''passphrase'', ''cert'', ''ca'', ''ciphers'',
      ''rejectUnauthorized'', ''secureProtocol'', ''servername'', ''checkServerIdentity'']"

text \<open>
  \<open>eventSourceInitDict\<close>. An absent property is \<open>None\<close> (or \<open>JUndefined\<close>); header
  values are strings.
\<close>

record initDict =
  headers :: "(string \<rightharpoonup> string) option"
  rejectUnauthorized :: jsval
  createConnection :: jsval
  proxy :: "string option"
  https :: "(string \<rightharpoonup> jsval) option"
  withCredentials :: jsval

text \<open>The fields of \<open>url.parse(url)\<close> the source reads or writes; \<open>null\<close> is \<open>None\<close>.\<close>

record urlParts =
  protocol :: "string option"
  host :: "string option"
  hostname :: "string option"
  port :: "string option"
  path :: "string option"

text \<open>
  The platform functions the source calls and does not define: the \<open>origin\<close> of
  \<open>new URL(url)\<close> (\<open>None\<close> when the constructor throws) and \<open>url.parse\<close>.
\<close>

record platform =
  urlOrigin :: "string \<Rightarrow> string option"
  urlParse :: "string \<Rightarrow> urlParts"

definition original :: "platform \<Rightarrow> string \<Rightarrow> string" where
  "original P url = (case urlOrigin P url of Some ori \<Rightarrow> ori | None \<Rightarrow> ''null'')"

text \<open>
  The \<open>options\<close> object handed to \<open>http.request\<close> or \<open>https.request\<close>: the parsed url,
  \<open>options.headers\<close>, the properties stored by name (\<open>rejectUnauthorized\<close>,
  \<open>createConnection\<close>, \<open>withCredentials\<close> and the allow-listed TLS options) and which
  module sends it.
\<close>

record request =
  target :: urlParts
  reqHeaders :: "string \<rightharpoonup> string"
  properties :: "string \<rightharpoonup> jsval"
  isSecure :: bool

section \<open>The session\<close>

datatype ready = CONNECTING | OPEN | CLOSED

text \<open>
  What \<open>_emit\<close> is called with: \<open>Event('open')\<close>, \<open>Event('error', {status, message})\<close>
  (either property may be absent) and \<open>MessageEvent(type, {data, lastEventId, origin})\<close>.
\<close>

datatype event =
    OpenEvent
  | ErrorEvent (errStatus: "nat option") (errMessage: "string option")
  | MessageEvent (evType: string) (evData: string) (evLastEventId: string) (evOrigin: string)

text \<open>
  The variables of one response: \<open>isFirst\<close>, \<open>buf\<close> (\<open>undefined\<close> is \<open>None\<close>),
  \<open>startingPos\<close> and \<open>startingFieldLength\<close>.
\<close>

record stream =
  isFirst :: bool
  buf :: "byte list option"
  startingPos :: nat
  startingFieldLength :: int

definition newStream :: stream where
  "newStream = \<lparr>isFirst = True, buf = None, startingPos = 0, startingFieldLength = - 1\<rparr>"

text \<open>
  What the source has attached to a request and to its response. The callback handed to
  \<open>request\<close> is a one-time listener of \<open>response\<close>: \<open>answered\<close> says that it has run.
  \<open>endListeners\<close> says that the \<open>close\<close> and \<open>end\<close> listeners of the response are
  attached; \<open>reader\<close> holds the variables of its \<open>data\<close> listener (\<open>None\<close> when there is no
  such listener); \<open>aborted\<close> says that \<open>req.abort()\<close> was called on the request.
\<close>

record exchange =
  answered :: bool
  endListeners :: bool
  reader :: "stream option"
  aborted :: bool

definition newExchange :: exchange where
  "newExchange = \<lparr>answered = False, endListeners = False, reader = None, aborted = False\<rparr>"

text \<open>
  The variables the closures of \<open>EventSource\<close> share. \<open>eventName\<close> is a string or
  \<open>undefined\<close> (\<open>None\<close>), \<open>reconnectUrl\<close> a string or \<open>null\<close>. The effects are kept
  as logs: \<open>emitted\<close> is the sequence of \<open>_emit\<close> calls, oldest first (\<open>_emit\<close> hands an
  event to the listeners of its type when there are any; listeners are observers),
  \<open>requests\<close> the requests sent, \<open>timers\<close> the delays of the pending \<open>setTimeout\<close>
  calls. \<open>exchanges\<close> holds, for each request sent, what is attached to it; the variable
  \<open>req\<close> of the source is the last request, and it is set before any handler can run.
\<close>

record session =
  readyState :: ready
  url :: string
  reconnectInterval :: number
  connectionInProgress :: bool
  lastEventId :: string
  discardTrailingNewline :: bool
  data :: string
  eventName :: "string option"
  reconnectUrl :: "string option"
  eventSourceInitDict :: "initDict option"
  emitted :: "event list"
  requests :: "request list"
  timers :: "number list"
  exchanges :: "exchange list"

definition emit :: "event \<Rightarrow> session \<Rightarrow> session" where
  "emit ev s = s\<lparr>emitted := emitted s @ [ev]\<rparr>"

section \<open>The stream parser\<close>

text \<open>
  The parameter \<open>buf\<close> of the source is \<open>buffer\<close> here, and the loop takes
  \<open>startingPos\<close> and \<open>startingFieldLength\<close> as \<open>sPos\<close> and \<open>sFieldLength\<close>.
\<close>

definition parseEventStreamLine ::
  "platform \<Rightarrow> byte list \<Rightarrow> nat \<Rightarrow> int \<Rightarrow> int \<Rightarrow> session \<Rightarrow> session" where
  "parseEventStreamLine P buffer pos fieldLength lineLength s =
     (if lineLength = 0 then
        (if length (data s) > 0 then
           (let ty = (case eventName s of None \<Rightarrow> ''message''
                      | Some n \<Rightarrow> if n = [] then ''message'' else n)
            in (emit (MessageEvent ty (butlast (data s)) (lastEventId s) (original P (url s))) s)
                 \<lparr>data := [], eventName := None\<rparr>)
         else s\<lparr>eventName := None\<rparr>)
      else if fieldLength > 0 then
        (let noValue = (fieldLength < 0);
             field = toString (slice buffer (int pos)
                       (int pos + (if noValue then lineLength else fieldLength)));
             step = (if noValue then lineLength
                     else if byteAt buffer (int pos + fieldLength + 1) \<noteq> Some space
                     then fieldLength + 1
                     else fieldLength + 2);
             pos' = int pos + step;
             valueLength = lineLength - step;
             value = toString (slice buffer pos' (pos' + valueLength))
         in if field = ''data'' then s\<lparr>data := data s @ value @ [CHR 0x0A]\<rparr>
            else if field = ''event'' then s\<lparr>eventName := Some value\<rparr>
            else if field = ''id'' then s\<lparr>lastEventId := value\<rparr>
            else if field = ''retry'' then
              (case parseInt10 value of
                 Some retry \<Rightarrow> s\<lparr>reconnectInterval := retry\<rparr>
               | None \<Rightarrow> s)
            else s)
      else s)"

text \<open>
  The \<open>for\<close> loop of the \<open>data\<close> handler: it scans the buffer from index \<open>i\<close> while no line
  end at or after \<open>pos\<close> has been found. The result is \<open>lineLength\<close>, \<open>fieldLength\<close> and
  \<open>discardTrailingNewline\<close>.
\<close>

function scanLine :: "byte list \<Rightarrow> nat \<Rightarrow> nat \<Rightarrow> int \<Rightarrow> int \<Rightarrow> bool \<Rightarrow> int \<times> int \<times> bool" where
  "scanLine buffer pos i lineLength fieldLength dtn =
     (if lineLength < 0 \<and> i < length buffer then
        (if buffer ! i = colon then
           scanLine buffer pos (i + 1) lineLength
             (if fieldLength < 0 then int i - int pos else fieldLength) dtn
         else if buffer ! i = carriageReturn then
           scanLine buffer pos (i + 1) (int i - int pos) fieldLength True
         else if buffer ! i = lineFeed then
           scanLine buffer pos (i + 1) (int i - int pos) fieldLength dtn
         else scanLine buffer pos (i + 1) lineLength fieldLength dtn)
      else (lineLength, fieldLength, dtn))"
  by pat_completeness auto
termination
  by (relation "measure (\<lambda>(buffer, pos, i, lineLength, fieldLength, dtn). length buffer - i)") auto

declare scanLine.simps [simp del]

text \<open>
  The \<open>while (pos < length)\<close> loop. It returns the final \<open>pos\<close>, \<open>startingPos\<close> and
  \<open>startingFieldLength\<close> and the session. \<open>pos\<close> never exceeds the length of the buffer
  (\<open>lineLoop_pos_le\<close> below), so \<open>length - pos\<close> is exact on natural numbers.
\<close>

function lineLoop ::
  "platform \<Rightarrow> byte list \<Rightarrow> nat \<Rightarrow> nat \<Rightarrow> int \<Rightarrow> session \<Rightarrow> nat \<times> nat \<times> int \<times> session" where
  "lineLoop P buffer pos sPos sFieldLength s =
     (if pos < length buffer then
        (let pos1 = (if discardTrailingNewline s \<and> buffer ! pos = lineFeed then pos + 1 else pos)
         in case scanLine buffer pos1 sPos (- 1) sFieldLength False of
              (lineLength, fieldLength, dtn) \<Rightarrow>
                if lineLength < 0
                then (pos1, length buffer - pos1, fieldLength, s\<lparr>discardTrailingNewline := dtn\<rparr>)
                else lineLoop P buffer (pos1 + nat (lineLength + 1)) 0 (- 1)
                       (parseEventStreamLine P buffer pos1 fieldLength lineLength
                          (s\<lparr>discardTrailingNewline := dtn\<rparr>)))
      else (pos, sPos, sFieldLength, s))"
  by pat_completeness auto
termination
  by (relation "measure (\<lambda>(P, buffer, pos, sPos, sFieldLength, s). length buffer - pos)")
     (auto split: if_splits)

declare lineLoop.simps [simp del]

definition onData :: "platform \<Rightarrow> byte list \<Rightarrow> stream \<times> session \<Rightarrow> stream \<times> session" where
  "onData P chunk = (\<lambda>(st, s).
     (let buf0 = (case buf st of Some b \<Rightarrow> b @ chunk | None \<Rightarrow> chunk);
          buf1 = (if isFirst st \<and> hasBom buf0 then drop (length bom) buf0 else buf0)
      in case lineLoop P buf1 0 (startingPos st) (startingFieldLength st) s of
           (pos, startingPos', startingFieldLength', s') \<Rightarrow>
             (\<lparr>isFirst = False,
               buf = (if pos = length buf1 then None
                      else if pos > 0 then Some (drop pos buf1)
                      else Some buf1),
               startingPos = startingPos',
               startingFieldLength = startingFieldLength'\<rparr>, s')))"

text \<open>The chunks of a response body, handed to the \<open>data\<close> handler one after another.\<close>

fun feed :: "platform \<Rightarrow> byte list list \<Rightarrow> stream \<times> session \<Rightarrow> stream \<times> session" where
  "feed P [] c = c"
| "feed P (chunk # chunks) c = feed P chunks (onData P chunk c)"


section \<open>The connection manager\<close>

text \<open>\<open>for (const i in headers) { if (headers[i]) options.headers[i] = headers[i] }\<close>\<close>

definition mergeHeaders :: "(string \<rightharpoonup> string) \<Rightarrow> (string \<rightharpoonup> string) \<Rightarrow> (string \<rightharpoonup> string)" where
  "mergeHeaders base hs =
     (\<lambda>i. case hs i of Some header \<Rightarrow> if header \<noteq> [] then Some header else base i
          | None \<Rightarrow> base i)"

text \<open>The loop over \<open>eventSourceInitDict.https\<close>: only allow-listed, defined options are copied.\<close>

definition mergeHttps :: "(string \<rightharpoonup> jsval) \<Rightarrow> (string \<rightharpoonup> jsval) \<Rightarrow> (string \<rightharpoonup> jsval)" where
  "mergeHttps base hs =
     (\<lambda>optName. case hs optName of
        Some option \<Rightarrow>
          if optName \<notin> set httpsOptions then base optName
          else if option \<noteq> JUndefined then Some option else base optName
      | None \<Rightarrow> base optName)"

text \<open>\<open>const useProxy = eventSourceInitDict && eventSourceInitDict.proxy\<close>, when truthy.\<close>

definition useProxy :: "initDict option \<Rightarrow> string option" where
  "useProxy init =
     (case init of
        Some d \<Rightarrow> (case proxy d of Some p \<Rightarrow> if p \<noteq> [] then Some p else None
                   | None \<Rightarrow> None)
      | None \<Rightarrow> None)"

text \<open>
  \<open>connect\<close> builds the options and sends the request; \<open>req\<close> is the new request, with
  its \<open>response\<close> callback and its \<open>error\<close> listener.
\<close>

definition connect :: "platform \<Rightarrow> session \<Rightarrow> session" where
  "connect P s =
     (let init = eventSourceInitDict s;
          options = urlParse P (url s);
          secure = (protocol options = Some ''https:'');
          hdrs0 = [''Cache-Control'' \<mapsto> ''no-cache'', ''Accept'' \<mapsto> ''text/event-stream''];
          hdrs1 = (if lastEventId s \<noteq> [] then hdrs0(''Last-Event-ID'' \<mapsto> lastEventId s) else hdrs0);
          hdrs2 = (case init of
                     Some d \<Rightarrow> (case headers d of Some hs \<Rightarrow> mergeHeaders hdrs1 hs | None \<Rightarrow> hdrs1)
                   | None \<Rightarrow> hdrs1);
          props0 = [''rejectUnauthorized'' \<mapsto>
                      JBool (\<not> (case init of Some d \<Rightarrow> \<not> truthy (rejectUnauthorized d)
                                 | None \<Rightarrow> False))];
          props1 = (case init of
                      Some d \<Rightarrow> if createConnection d \<noteq> JUndefined
                                then props0(''createConnection'' \<mapsto> createConnection d) else props0
                    | None \<Rightarrow> props0);
          proxyUrl = useProxy init;
          secure' = (case proxyUrl of Some p \<Rightarrow> protocol (urlParse P p) = Some ''https:''
                     | None \<Rightarrow> secure);
          options' = (case proxyUrl of
                        Some p \<Rightarrow>
                          options\<lparr>protocol := Some (if secure' then ''https:'' else ''http:''),
                                  path := Some (url s),
                                  hostname := hostname (urlParse P p),
                                  host := host (urlParse P p),
                                  port := port (urlParse P p)\<rparr>
                      | None \<Rightarrow> options);
          hdrs3 = (case proxyUrl of Some p \<Rightarrow> hdrs2(''Host'' := host options) | None \<Rightarrow> hdrs2);
          props2 = (case init of
                      Some d \<Rightarrow> (case https d of Some hs \<Rightarrow> mergeHttps props1 hs | None \<Rightarrow> props1)
                    | None \<Rightarrow> props1);
          props3 = (case init of
                      Some d \<Rightarrow> if withCredentials d \<noteq> JUndefined
                                then props2(''withCredentials'' \<mapsto> withCredentials d) else props2
                    | None \<Rightarrow> props2)
      in s\<lparr>requests := requests s @
                [\<lparr>target = options', reqHeaders = hdrs3, properties = props3, isSecure = secure'\<rparr>],
            exchanges := exchanges s @ [newExchange]\<rparr>)"

definition onConnectionClosed :: "string option \<Rightarrow> session \<Rightarrow> session" where
  "onConnectionClosed message s =
     (if readyState s = CLOSED then s
      else
        (let s1 = emit (ErrorEvent None message) (s\<lparr>readyState := CONNECTING\<rparr>);
             s2 = (case reconnectUrl s1 of
                     Some u \<Rightarrow> if u \<noteq> [] then s1\<lparr>url := u, reconnectUrl := None\<rparr> else s1
                   | None \<Rightarrow> s1)
         in s2\<lparr>timers := timers s2 @ [reconnectInterval s2]\<rparr>))"

text \<open>The callback \<open>onConnectionClosed\<close> hands to \<open>setTimeout\<close>.\<close>

definition reconnectTimer :: "platform \<Rightarrow> session \<Rightarrow> session" where
  "reconnectTimer P s =
     (if readyState s \<noteq> CONNECTING \<or> connectionInProgress s then s
      else connect P (s\<lparr>connectionInProgress := True\<rparr>))"

text \<open>\<open>if (req.abort) req.abort()\<close>: the request in \<open>req\<close> is the last one sent.\<close>

definition abortLast :: "exchange list \<Rightarrow> exchange list" where
  "abortLast xs = (if xs = [] then xs else butlast xs @ [(last xs)\<lparr>aborted := True\<rparr>])"

definition close :: "session \<Rightarrow> session" where
  "close s =
     (if readyState s = CLOSED then s
      else s\<lparr>readyState := CLOSED, exchanges := abortLast (exchanges s)\<rparr>)"

text \<open>
  The callback of the request number \<open>k\<close>, called with the response: its \<open>statusCode\<close>,
  \<open>statusMessage\<close> and \<open>headers.location\<close>. \<open>process.nextTick(connect)\<close> runs \<open>connect\<close>
  before any other callback, so the redirect branch ends with \<open>connect\<close>. On a \<open>200\<close> the
  \<open>close\<close>, \<open>end\<close> and \<open>data\<close> listeners are attached to the response, with new parser
  variables.
\<close>

definition onResponse ::
  "platform \<Rightarrow> nat \<Rightarrow> nat \<Rightarrow> string \<Rightarrow> string option \<Rightarrow> session \<Rightarrow> session" where
  "onResponse P k statusCode statusMessage location s =
     (let s0 = s\<lparr>connectionInProgress := False\<rparr>
      in if statusCode = 500 \<or> statusCode = 502 \<or> statusCode = 503 \<or> statusCode = 504 then
           onConnectionClosed None (emit (ErrorEvent (Some statusCode) (Some statusMessage)) s0)
         else if statusCode = 301 \<or> statusCode = 302 \<or> statusCode = 307 then
           (case (case location of Some l \<Rightarrow> if l \<noteq> [] then Some l else None | None \<Rightarrow> None) of
              None \<Rightarrow> emit (ErrorEvent (Some statusCode) (Some statusMessage)) s0
            | Some l \<Rightarrow>
                connect P
                  ((if statusCode = 307 then s0\<lparr>reconnectUrl := Some (url s0)\<rparr> else s0)
                     \<lparr>url := l\<rparr>))
         else if statusCode \<noteq> 200 then
           close (emit (ErrorEvent (Some statusCode) (Some statusMessage)) s0)
         else (emit OpenEvent (s0\<lparr>readyState := OPEN\<rparr>))
                \<lparr>exchanges := (exchanges s0)
                   [k := (exchanges s0 ! k)\<lparr>endListeners := True, reader := Some newStream\<rparr>]\<rparr>)"

text \<open>
  The constructor: the initial values of the variables, the \<open>Last-Event-ID\<close> header
  taken out of the caller's headers, and the first \<open>connect\<close>.
\<close>

definition EventSource :: "platform \<Rightarrow> string \<Rightarrow> initDict option \<Rightarrow> session" where
  "EventSource P u init =
     (let given = (case init of
                     Some d \<Rightarrow> (case headers d of
                                  Some hs \<Rightarrow> (case hs ''Last-Event-ID'' of
                                                Some v \<Rightarrow> if v \<noteq> [] then Some (d, hs, v) else None
                                              | None \<Rightarrow> None)
                                | None \<Rightarrow> None)
                   | None \<Rightarrow> None)
      in connect P
           \<lparr>readyState = CONNECTING, url = u, reconnectInterval = Finite 1000,
            connectionInProgress = False,
            lastEventId = (case given of Some (d, hs, v) \<Rightarrow> v | None \<Rightarrow> []),
            discardTrailingNewline = False, data = [], eventName = Some [],
            reconnectUrl = None,
            eventSourceInitDict =
              (case given of
                 Some (d, hs, v) \<Rightarrow> Some (d\<lparr>headers := Some (hs(''Last-Event-ID'' := None))\<rparr>)
               | None \<Rightarrow> init),
            emitted = [], requests = [], timers = [], exchanges = []\<rparr>)"

text \<open>
  What happens to a session: the transport calls a listener the source has attached, a
  pending timer fires, or the caller calls \<open>close()\<close>. The listeners are those of the
  request number \<open>k\<close> and of its response. The source guards none of them, so the model
  lets the transport call each one whenever it is attached: the \<open>response\<close> callback of
  a request once; the \<open>data\<close> listener of a response; its \<open>end\<close> and \<open>close\<close> listeners
  until one of them has run (each begins with \<open>removeAllListeners\<close> for both); the
  \<open>error\<close> listener of a request. A call without listener leaves the session as it is.
\<close>

datatype input =
    Response nat nat string "string option"
  | Data nat "byte list"
  | End nat
  | ResClose nat
  | ReqError nat string
  | Timeout nat
  | Close

fun step :: "platform \<Rightarrow> input \<Rightarrow> session \<Rightarrow> session" where
  "step P (Response k statusCode statusMessage location) s =
     (if k < length (exchanges s) \<and> \<not> answered (exchanges s ! k)
      then onResponse P k statusCode statusMessage location
             (s\<lparr>exchanges := (exchanges s)[k := (exchanges s ! k)\<lparr>answered := True\<rparr>]\<rparr>)
      else s)"
| "step P (Data k chunk) s =
     (if k < length (exchanges s)
      then (case reader (exchanges s ! k) of
              None \<Rightarrow> s
            | Some st \<Rightarrow>
                (case onData P chunk (st, s) of
                   (st', s') \<Rightarrow>
                     s'\<lparr>exchanges := (exchanges s')[k := (exchanges s' ! k)\<lparr>reader := Some st'\<rparr>]\<rparr>))
      else s)"
| "step P (End k) s =
     (if k < length (exchanges s) \<and> endListeners (exchanges s ! k)
      then onConnectionClosed None
             (s\<lparr>exchanges := (exchanges s)[k := (exchanges s ! k)\<lparr>endListeners := False\<rparr>]\<rparr>)
      else s)"
| "step P (ResClose k) s =
     (if k < length (exchanges s) \<and> endListeners (exchanges s ! k)
      then onConnectionClosed None
             (s\<lparr>exchanges := (exchanges s)[k := (exchanges s ! k)\<lparr>endListeners := False\<rparr>]\<rparr>)
      else s)"
| "step P (ReqError k message) s =
     (if k < length (exchanges s)
      then onConnectionClosed (Some message) (s\<lparr>connectionInProgress := False\<rparr>)
      else s)"
| "step P (Timeout j) s =
     (if j < length (timers s)
      then reconnectTimer P (s\<lparr>timers := take j (timers s) @ drop (Suc j) (timers s)\<rparr>)
      else s)"
| "step P Close s = close s"

fun run :: "platform \<Rightarrow> input list \<Rightarrow> session \<Rightarrow> session" where
  "run P [] s = s"
| "run P (e # es) s = run P es (step P e s)"

section \<open>Reference definitions\<close>

text \<open>
  What the parser does is stated against a byte-at-a-time reading of an event stream.
  \<open>processLine\<close> is \<open>parseEventStreamLine\<close> on a buffer that holds one line and a
  line feed. \<open>sseAutomaton\<close> reads bytes one by one: it collects the current line,
  hands it to \<open>processLine\<close> at a carriage return or a line feed, and takes a line feed
  that directly follows a carriage return for the second half of a CRLF. Its state is the
  flag \<open>afterCR\<close> (the last byte was a carriage return), the line read so far, and the
  session.
\<close>

definition notEol :: "byte \<Rightarrow> bool" where
  "notEol c = (c \<noteq> carriageReturn \<and> c \<noteq> lineFeed)"

definition colonIndex :: "byte list \<Rightarrow> int" where
  "colonIndex line =
     (if colon \<in> set line then int (length (takeWhile (\<lambda>c. c \<noteq> colon) line)) else - 1)"

definition processLine :: "platform \<Rightarrow> byte list \<Rightarrow> session \<Rightarrow> session" where
  "processLine P line s =
     parseEventStreamLine P (line @ [lineFeed]) 0 (colonIndex line) (int (length line)) s"

fun sseAutomaton ::
  "platform \<Rightarrow> bool \<Rightarrow> byte list \<Rightarrow> byte list \<Rightarrow> session \<Rightarrow> bool \<times> byte list \<times> session" where
  "sseAutomaton P afterCR line [] s = (afterCR, line, s)"
| "sseAutomaton P afterCR line (b # bs) s =
     (if b = lineFeed then
        (if afterCR then sseAutomaton P False line bs s
         else sseAutomaton P False [] bs (processLine P line s))
      else if b = carriageReturn then sseAutomaton P True [] bs (processLine P line s)
      else sseAutomaton P False (line @ [b]) bs s)"

text \<open>
  The streams on which the handler is compared with the automaton. The handler sets
  \<open>discardTrailingNewline\<close> at every carriage return its scan meets, and the scan of a
  line runs again over the lines of the buffer already handled; so, once a carriage
  return has been read, a line feed at the start of a line may be skipped although no
  carriage return stands before it. \<open>tolerated seenCR afterCR atStart bs\<close> holds when
  \<open>bs\<close> has no such line feed: no line feed that stands at the start of a line, not
  directly after a carriage return, once a carriage return has been read. In other
  words, two line feeds in a row occur only before the first carriage return
  (\<open>tolerated_iff\<close> below). The three
  flags say whether a carriage return has been read, whether the last byte was one, and
  whether the next byte starts a line. Streams without a carriage return, streams
  without a line feed, and streams in which every line feed follows a carriage return are
  all tolerated.
\<close>

fun tolerated :: "bool \<Rightarrow> bool \<Rightarrow> bool \<Rightarrow> byte list \<Rightarrow> bool" where
  "tolerated seenCR afterCR atStart [] = True"
| "tolerated seenCR afterCR atStart (b # bs) =
     (if b = lineFeed then \<not> (seenCR \<and> \<not> afterCR \<and> atStart) \<and> tolerated seenCR False True bs
      else if b = carriageReturn then tolerated True True True bs
      else tolerated seenCR False False bs)"

text \<open>
  The flag \<open>discardTrailingNewline\<close> is the one variable of the session on which the
  handler and the automaton may differ; \<open>observable\<close> resets it.
\<close>

definition observable :: "session \<Rightarrow> session" where
  "observable s = s\<lparr>discardTrailingNewline := False\<rparr>"

text \<open>
  The invariants of the scan, of the loop and of the handler. \<open>fieldOK seg fl\<close>: \<open>fl\<close>
  is the index of the first colon of \<open>seg\<close>, or negative when it has none.
  \<open>segment bf pos i\<close> is the part of the buffer between \<open>pos\<close> and \<open>i\<close>.
\<close>

definition fieldOK :: "byte list \<Rightarrow> int \<Rightarrow> bool" where
  "fieldOK seg fl =
     (if colon \<in> set seg then fl = int (length (takeWhile (\<lambda>c. c \<noteq> colon) seg)) else fl < 0)"

definition segment :: "byte list \<Rightarrow> nat \<Rightarrow> nat \<Rightarrow> byte list" where
  "segment bf pos i = take (i - pos) (drop pos bf)"

definition scanPost :: "byte list \<Rightarrow> nat \<Rightarrow> int \<times> int \<times> bool \<Rightarrow> bool" where
  "scanPost bf pos r =
     (case r of (ll, fl, dtn) \<Rightarrow>
        fieldOK (takeWhile notEol (drop pos bf)) fl \<and>
        (if list_all notEol (drop pos bf)
         then ll < 0 \<and> (dtn \<longrightarrow> carriageReturn \<in> set (take pos bf))
         else ll = int (length (takeWhile notEol (drop pos bf))) \<and>
              (drop pos bf ! length (takeWhile notEol (drop pos bf)) = carriageReturn \<longrightarrow> dtn) \<and>
              (dtn \<longrightarrow> carriageReturn \<in>
                 set (take (pos + length (takeWhile notEol (drop pos bf)) + 1) bf))))"

definition loopPost ::
  "platform \<Rightarrow> byte list \<Rightarrow> nat \<Rightarrow> bool \<Rightarrow> bool \<Rightarrow> session \<Rightarrow> nat \<times> nat \<times> int \<times> session \<Rightarrow> bool" where
  "loopPost P bf pos seenCR afterCR s r =
     (case r of (pos', sp', sfl', s') \<Rightarrow>
        pos' \<le> length bf \<and> sp' = length bf - pos' \<and>
        list_all notEol (drop pos' bf) \<and> fieldOK (drop pos' bf) sfl' \<and>
        (discardTrailingNewline s' \<longrightarrow> seenCR \<or> carriageReturn \<in> set (drop pos bf)) \<and>
        (case sseAutomaton P afterCR [] (drop pos bf) (observable s) of
           (afterCR', line', t') \<Rightarrow>
             line' = drop pos' bf \<and> t' = observable s' \<and>
             (afterCR' \<longrightarrow> discardTrailingNewline s')))"

definition pending :: "stream \<Rightarrow> byte list" where
  "pending st = (case buf st of None \<Rightarrow> [] | Some b \<Rightarrow> b)"

definition streamOK :: "stream \<Rightarrow> bool" where
  "streamOK st =
     (startingPos st = length (pending st) \<and> list_all notEol (pending st) \<and>
      fieldOK (pending st) (startingFieldLength st) \<and>
      (isFirst st \<longrightarrow> pending st = []))"

definition related :: "bool \<Rightarrow> bool \<Rightarrow> stream \<Rightarrow> session \<Rightarrow> bool" where
  "related seenCR afterCR st s =
     (streamOK st \<and> (afterCR \<longrightarrow> discardTrailingNewline s \<and> pending st = []) \<and>
      (discardTrailingNewline s \<longrightarrow> seenCR) \<and> (isFirst st \<longrightarrow> \<not> seenCR))"

definition stripBom :: "bool \<Rightarrow> byte list \<Rightarrow> byte list" where
  "stripBom first b = (if first \<and> hasBom b then drop (length bom) b else b)"


text \<open>
  The fields of a line, in the words of the specification: the name is what stands
  before the first colon, and the value starts after the colon, or after the space that
  follows it immediately. \<open>isField name\<close> holds of a line with a colon whose name is
  \<open>name\<close>.
\<close>

definition isField :: "string \<Rightarrow> byte list \<Rightarrow> bool" where
  "isField name line = (colon \<in> set line \<and> takeWhile (\<lambda>c. c \<noteq> colon) line = name)"

definition fieldValue :: "byte list \<Rightarrow> string" where
  "fieldValue line =
     (let r = drop 1 (dropWhile (\<lambda>c. c \<noteq> colon) line)
      in if r \<noteq> [] \<and> hd r = space then tl r else r)"

text \<open>
  The event a block of field lines stands for has the values of its \<open>data:\<close> lines,
  the value of its last \<open>event:\<close> line and the value of the last \<open>id:\<close> line read so far.
\<close>

definition dataValues :: "byte list list \<Rightarrow> string list" where
  "dataValues block = map fieldValue (filter (isField ''data'') block)"

definition eventNames :: "byte list list \<Rightarrow> string list" where
  "eventNames block = map fieldValue (filter (isField ''event'') block)"

definition idValues :: "byte list list \<Rightarrow> string list" where
  "idValues block = map fieldValue (filter (isField ''id'') block)"

definition expectedData :: "byte list list \<Rightarrow> string" where
  "expectedData block = butlast (concat (map (\<lambda>v. v @ [CHR 0x0A]) (dataValues block)))"

definition expectedType :: "byte list list \<Rightarrow> string" where
  "expectedType block =
     (if eventNames block = [] \<or> last (eventNames block) = [] then ''message''
      else last (eventNames block))"

fun expectedEvents :: "platform \<Rightarrow> string \<Rightarrow> string \<Rightarrow> byte list list list \<Rightarrow> event list" where
  "expectedEvents P u lastId [] = []"
| "expectedEvents P u lastId (block # blocks) =
     MessageEvent (expectedType block) (expectedData block) (last (lastId # idValues block))
       (original P u)
     # expectedEvents P u (last (lastId # idValues block)) blocks"

text \<open>
  A stream of events, given by its blocks. A line is written with its line end: a line
  feed, a carriage return, or a carriage return and a line feed. A block is the list of
  its field lines, each with its line end, and the line end of the blank line that closes
  the block. A field line is not empty, holds no line end and is none of the bare names
  \<open>data\<close>, \<open>event\<close> and \<open>id\<close> (a line without a colon is a field name with the empty
  value; see C3). The bytes CR LF are one line end, so a blank line is not written with a
  line feed alone after a line that ends with a carriage return.
\<close>

type_synonym fieldLine = "byte list \<times> byte list"

type_synonym block = "fieldLine list \<times> byte list"

definition fieldLines :: "block \<Rightarrow> byte list list" where
  "fieldLines b = map fst (fst b)"

definition isEol :: "byte list \<Rightarrow> bool" where
  "isEol eol = (eol = [lineFeed] \<or> eol = [carriageReturn] \<or> eol = [carriageReturn, lineFeed])"

definition blockBytes :: "block \<Rightarrow> byte list" where
  "blockBytes b = concat (map (\<lambda>(l, eol). l @ eol) (fst b)) @ snd b"

definition streamBytes :: "block list \<Rightarrow> byte list" where
  "streamBytes blocks = concat (map blockBytes blocks)"

definition wellFormedLine :: "byte list \<Rightarrow> bool" where
  "wellFormedLine l =
     (l \<noteq> [] \<and> lineFeed \<notin> set l \<and> carriageReturn \<notin> set l \<and>
      l \<notin> set [''data'', ''event'', ''id''])"

definition wellFormedBlock :: "block \<Rightarrow> bool" where
  "wellFormedBlock b =
     (list_all (\<lambda>(l, eol). wellFormedLine l \<and> isEol eol) (fst b) \<and> isEol (snd b) \<and>
      dataValues (fieldLines b) \<noteq> [] \<and>
      \<not> (snd b = [lineFeed] \<and> snd (last (fst b)) = [carriageReturn]))"

fun processLines :: "platform \<Rightarrow> byte list list \<Rightarrow> session \<Rightarrow> session" where
  "processLines P [] s = s"
| "processLines P (l # ls) s = processLines P ls (processLine P l s)"

text \<open>The variables the parser never writes.\<close>

definition control ::
  "session \<Rightarrow> ready \<times> string \<times> bool \<times> string option \<times> initDict option \<times> request list \<times> number list \<times> exchange list" where
  "control s =
     (readyState s, url s, connectionInProgress s, reconnectUrl s, eventSourceInitDict s,
      requests s, timers s, exchanges s)"




text \<open>
  \<open>disconnects e s\<close>: the input \<open>e\<close> is a disconnect of the session \<open>s\<close>, that is, its
  listener is attached, it calls \<open>onConnectionClosed\<close>, and the session is not closed: a
  response \<open>500\<close>, \<open>502\<close>, \<open>503\<close> or \<open>504\<close>, the end or the close of a response, an error
  of a request. \<open>temporaryRedirect e s\<close>: the input is a response \<open>307\<close> with a
  \<open>Location\<close> to a request not yet answered. \<open>undisturbed P es s\<close>: none of the inputs
  \<open>es\<close>, handled one after another from \<open>s\<close>, is a disconnect or a temporary redirect.
\<close>

fun disconnects :: "input \<Rightarrow> session \<Rightarrow> bool" where
  "disconnects (Response k statusCode statusMessage location) s =
     (readyState s \<noteq> CLOSED \<and> k < length (exchanges s) \<and> \<not> answered (exchanges s ! k) \<and>
      statusCode \<in> set [500, 502, 503, 504])"
| "disconnects (End k) s =
     (readyState s \<noteq> CLOSED \<and> k < length (exchanges s) \<and> endListeners (exchanges s ! k))"
| "disconnects (ResClose k) s =
     (readyState s \<noteq> CLOSED \<and> k < length (exchanges s) \<and> endListeners (exchanges s ! k))"
| "disconnects (ReqError k message) s = (readyState s \<noteq> CLOSED \<and> k < length (exchanges s))"
| "disconnects e s = False"

fun temporaryRedirect :: "input \<Rightarrow> session \<Rightarrow> bool" where
  "temporaryRedirect (Response k statusCode statusMessage location) s =
     (k < length (exchanges s) \<and> \<not> answered (exchanges s ! k) \<and> statusCode = 307 \<and>
      location \<noteq> None \<and> location \<noteq> Some [])"
| "temporaryRedirect e s = False"

fun undisturbed :: "platform \<Rightarrow> input list \<Rightarrow> session \<Rightarrow> bool" where
  "undisturbed P [] s = True"
| "undisturbed P (e # es) s =
     (\<not> disconnects e s \<and> \<not> temporaryRedirect e s \<and> undisturbed P es (step P e s))"

text \<open>
  The target \<open>connect\<close> gives a request for the url \<open>u\<close>: the parsed url, or with a proxy
  the proxy's host and port and the url as path.
\<close>

definition targetOf :: "platform \<Rightarrow> initDict option \<Rightarrow> string \<Rightarrow> urlParts" where
  "targetOf P init u =
     (case useProxy init of
        None \<Rightarrow> urlParse P u
      | Some p \<Rightarrow>
          (urlParse P u)
            \<lparr>protocol := Some (if protocol (urlParse P p) = Some ''https:'' then ''https:''
                                else ''http:''),
             path := Some u,
             hostname := hostname (urlParse P p),
             host := host (urlParse P p),
             port := port (urlParse P p)\<rparr>)"




section \<open>Concrete inputs\<close>

text \<open>
  A platform whose \<open>url.parse\<close> gives an \<open>http\<close> target and whose origin is the url
  itself, and the session \<open>new EventSource('http://example.org/events')\<close> creates.
\<close>

definition testPlatform :: platform where
  "testPlatform =
     \<lparr>urlOrigin = (\<lambda>u. Some u),
      urlParse = (\<lambda>u. \<lparr>protocol = Some ''http:'', host = Some ''example.org'',
                         hostname = Some ''example.org'', port = None, path = Some u\<rparr>)\<rparr>"

definition testSession :: session where
  "testSession = EventSource testPlatform ''http://example.org/events'' None"

section \<open>The scan, the loop and the handler against the automaton\<close>

lemma takeWhile_neq_notin: "x \<notin> set xs \<Longrightarrow> takeWhile (\<lambda>c. c \<noteq> x) xs = xs"
  by (induction xs) auto

lemma takeWhile_neq_append:
  "x \<notin> set xs \<Longrightarrow> takeWhile (\<lambda>c. c \<noteq> x) (xs @ ys) = xs @ takeWhile (\<lambda>c. c \<noteq> x) ys"
  by (induction xs) auto

lemma takeWhile_neq_in:
  "x \<in> set xs \<Longrightarrow> takeWhile (\<lambda>c. c \<noteq> x) (xs @ ys) = takeWhile (\<lambda>c. c \<noteq> x) xs"
  by (induction xs) auto

lemma fieldOK_Nil [simp]: "fieldOK [] fl = (fl < 0)"
  by (simp add: fieldOK_def)

lemma fieldOK_snoc_colon:
  "fieldOK seg fl \<Longrightarrow> fieldOK (seg @ [colon]) (if fl < 0 then int (length seg) else fl)"
  by (auto simp: fieldOK_def takeWhile_neq_append takeWhile_neq_in split: if_splits)

lemma fieldOK_snoc_other:
  "fieldOK seg fl \<Longrightarrow> c \<noteq> colon \<Longrightarrow> fieldOK (seg @ [c]) fl"
  by (auto simp: fieldOK_def takeWhile_neq_append takeWhile_neq_in split: if_splits)

lemma segment_Suc:
  "pos \<le> i \<Longrightarrow> i < length bf \<Longrightarrow> segment bf pos (Suc i) = segment bf pos i @ [bf ! i]"
  by (simp add: segment_def Suc_diff_le take_Suc_conv_app_nth)

lemma segment_before: "i \<le> pos \<Longrightarrow> segment bf pos i = []"
  by (simp add: segment_def)

lemma segment_all: "length bf \<le> i \<Longrightarrow> segment bf pos i = drop pos bf"
  by (simp add: segment_def)

lemma drop_segment:
  "pos \<le> i \<Longrightarrow> i < length bf \<Longrightarrow> drop pos bf = segment bf pos i @ bf ! i # drop (Suc i) bf"
proof -
  assume a: "pos \<le> i" "i < length bf"
  have "drop pos bf = take (i - pos) (drop pos bf) @ drop (i - pos) (drop pos bf)"
    by (simp only: append_take_drop_id)
  moreover have "i - pos + pos = i" using a by simp
  then have "drop (i - pos) (drop pos bf) = drop i bf" by simp
  moreover have "drop i bf = bf ! i # drop (Suc i) bf" using a by (simp add: Cons_nth_drop_Suc)
  ultimately show ?thesis by (simp only: segment_def)
qed

lemma takeWhile_all: "list_all Q xs \<Longrightarrow> takeWhile Q (xs @ ys) = xs @ takeWhile Q ys"
  by (induction xs) auto

lemma takeWhile_stop: "list_all Q xs \<Longrightarrow> \<not> Q y \<Longrightarrow> takeWhile Q (xs @ y # ys) = xs"
  by (induction xs) auto

lemma take_Suc_set: "i < length bf \<Longrightarrow> set (take (Suc i) bf) = insert (bf ! i) (set (take i bf))"
  by (simp add: take_Suc_conv_app_nth)

lemma scanLine_stop:
  "\<not> ll < 0 \<Longrightarrow> scanLine bf pos i ll fl dtn = (ll, fl, dtn)"
  by (subst scanLine.simps) simp

lemma scanLine_end:
  "\<not> i < length bf \<Longrightarrow> scanLine bf pos i ll fl dtn = (ll, fl, dtn)"
  by (subst scanLine.simps) simp

lemma scanLine_step:
  "ll < 0 \<Longrightarrow> i < length bf \<Longrightarrow>
   scanLine bf pos i ll fl dtn =
     (if bf ! i = colon then
        scanLine bf pos (i + 1) ll (if fl < 0 then int i - int pos else fl) dtn
      else if bf ! i = carriageReturn then scanLine bf pos (i + 1) (int i - int pos) fl True
      else if bf ! i = lineFeed then scanLine bf pos (i + 1) (int i - int pos) fl dtn
      else scanLine bf pos (i + 1) ll fl dtn)"
  by (subst scanLine.simps) simp

lemma bytes_distinct [simp]:
  "colon \<noteq> carriageReturn" "colon \<noteq> lineFeed" "carriageReturn \<noteq> lineFeed"
  "carriageReturn \<noteq> colon" "lineFeed \<noteq> colon" "lineFeed \<noteq> carriageReturn"
  "space \<noteq> lineFeed" "lineFeed \<noteq> space"
  by (simp_all add: colon_def carriageReturn_def lineFeed_def space_def)

lemma scanLine_spec:
  "pos \<le> length bf \<Longrightarrow> i \<le> length bf \<Longrightarrow> ll < 0 \<Longrightarrow>
   list_all notEol (segment bf pos i) \<Longrightarrow> fieldOK (segment bf pos i) fl \<Longrightarrow>
   (dtn \<longrightarrow> carriageReturn \<in> set (take i bf)) \<Longrightarrow>
   scanPost bf pos (scanLine bf pos i ll fl dtn)"
proof (induction "length bf - i" arbitrary: i ll fl dtn rule: less_induct)
  case less
  show ?case
  proof (cases "i < length bf")
    case False
    with less.prems have seg: "segment bf pos i = drop pos bf" by (simp add: segment_all)
    have all: "list_all notEol (drop pos bf)" using less.prems(4) seg by simp
    then have tw: "takeWhile notEol (drop pos bf) = drop pos bf"
      by (simp add: list_all_iff takeWhile_eq_all_conv)
    have "dtn \<longrightarrow> carriageReturn \<in> set (take pos bf)"
    proof
      assume dtn
      with less.prems(6) False have "carriageReturn \<in> set bf" by simp
      then have "carriageReturn \<in> set (take pos bf) \<or> carriageReturn \<in> set (drop pos bf)"
        by (metis Un_iff append_take_drop_id set_append)
      moreover have "carriageReturn \<notin> set (drop pos bf)"
        using all by (auto simp: list_all_iff notEol_def)
      ultimately show "carriageReturn \<in> set (take pos bf)" by simp
    qed
    then show ?thesis
      using False less.prems(3,5) seg all by (simp add: scanLine_end scanPost_def tw)
  next
    case True
    note lt = True
    note step = scanLine_step[OF less.prems(3) lt, of pos fl dtn]
    have dec: "length bf - (i + 1) < length bf - i" using lt by simp
    have le1: "i + 1 \<le> length bf" using lt by simp
    show ?thesis
    proof (cases "i < pos")
      case True
      then have seg: "segment bf pos i = []" "segment bf pos (i + 1) = []"
        by (simp_all add: segment_before)
      have neg: "int i - int pos < 0" using True by simp
      have tk: "\<And>d. (d \<longrightarrow> carriageReturn \<in> set (take i bf)) \<Longrightarrow>
                   (d \<longrightarrow> carriageReturn \<in> set (take (i + 1) bf))"
        using lt by (auto simp: take_Suc_set)
      have tkcr: "bf ! i = carriageReturn \<Longrightarrow> carriageReturn \<in> set (take (i + 1) bf)"
        using lt by (auto simp: take_Suc_set)
      have IH: "\<And>ll' fl' d'. ll' < 0 \<Longrightarrow> fl' < 0 \<Longrightarrow> (d' \<longrightarrow> carriageReturn \<in> set (take (i + 1) bf)) \<Longrightarrow>
                  scanPost bf pos (scanLine bf pos (i + 1) ll' fl' d')"
        using less.hyps[OF dec less.prems(1) le1] seg by simp
      have fl: "fl < 0" using less.prems(5) seg by simp
      show ?thesis
        unfolding step
        using IH[OF less.prems(3) fl tk[OF less.prems(6)]] IH[OF less.prems(3) neg tk[OF less.prems(6)]]
              IH[OF neg fl tk[OF less.prems(6)]] IH[OF neg fl, of True] tkcr fl
        by auto
    next
      case False
      then have le: "pos \<le> i" by simp
      have segS: "segment bf pos (i + 1) = segment bf pos i @ [bf ! i]"
        using segment_Suc[OF le lt] by simp
      have len: "length (segment bf pos i) = i - pos"
        using le lt by (simp add: segment_def)
      have dr: "drop pos bf = segment bf pos i @ bf ! i # drop (Suc i) bf"
        by (rule drop_segment[OF le lt])
      have tk: "dtn \<longrightarrow> carriageReturn \<in> set (take (i + 1) bf)"
        using less.prems(6) lt by (auto simp: take_Suc_set)
      show ?thesis
      proof (cases "notEol (bf ! i)")
        case False
        then have trm: "bf ! i = carriageReturn \<or> bf ! i = lineFeed" by (auto simp: notEol_def)
        have tw: "takeWhile notEol (drop pos bf) = segment bf pos i"
          by (subst dr) (rule takeWhile_stop[OF less.prems(4) False])
        have nall: "\<not> list_all notEol (drop pos bf)"
          by (subst dr) (simp add: False)
        have at: "drop pos bf ! (i - pos) = bf ! i" using le lt by simp
        have ge: "\<not> int i - int pos < 0" using le by simp
        have pl: "pos + (i - pos) + 1 = i + 1" using le by simp
        have res: "scanLine bf pos i ll fl dtn =
            (int i - int pos, fl, if bf ! i = carriageReturn then True else dtn)"
          unfolding step using trm ge by (auto simp: scanLine_stop)
        have crin: "bf ! i = carriageReturn \<Longrightarrow> carriageReturn \<in> set (take (i + 1) bf)"
          using lt by (auto simp: take_Suc_set)
        show ?thesis
          unfolding res scanPost_def
          using tw nall less.prems(5) len at pl tk crin le by (auto simp: of_nat_diff)
      next
        case ne: True
        then have ncr: "bf ! i \<noteq> carriageReturn" and nlf: "bf ! i \<noteq> lineFeed"
          by (auto simp: notEol_def)
        have all': "list_all notEol (segment bf pos (i + 1))"
          unfolding segS using less.prems(4) ne by simp
        show ?thesis
        proof (cases "bf ! i = colon")
          case True
          have "fieldOK (segment bf pos (i + 1)) (if fl < 0 then int i - int pos else fl)"
            using fieldOK_snoc_colon[OF less.prems(5)] segS True len le
            by (cases "fl < 0") (simp_all add: of_nat_diff)
          from less.hyps[OF dec less.prems(1) le1 less.prems(3) all' this tk]
          show ?thesis unfolding step using True by simp
        next
          case False
          have "fieldOK (segment bf pos (i + 1)) fl"
            using fieldOK_snoc_other[OF less.prems(5) False] segS by simp
          from less.hyps[OF dec less.prems(1) le1 less.prems(3) all' this tk]
          show ?thesis unfolding step using False ncr nlf by simp
        qed
      qed
    qed
  qed
qed


lemma clampIndex_nonneg: "0 \<le> k \<Longrightarrow> nat k \<le> len \<Longrightarrow> clampIndex len k = nat k"
  by (simp add: clampIndex_def)

lemma slice_sub:
  assumes "drop pos bf = xs @ ys" "pos \<le> length bf" "0 \<le> a" "a \<le> b" "b \<le> int (length xs)"
  shows "slice bf (int pos + a) (int pos + b) = take (nat (b - a)) (drop (nat a) xs)"
proof -
  have "length (drop pos bf) = length (xs @ ys)" using assms(1) by simp
  then have len: "length bf = pos + length xs + length ys"
    using assms(2) by simp
  have ca: "clampIndex (length bf) (int pos + a) = pos + nat a"
    using assms len by (subst clampIndex_nonneg) (auto simp: nat_add_distrib)
  have cb: "clampIndex (length bf) (int pos + b) = pos + nat b"
    using assms len by (subst clampIndex_nonneg) (auto simp: nat_add_distrib)
  have "drop (pos + nat a) bf = drop (nat a) (xs @ ys)"
    using assms(1) by (metis add.commute drop_drop)
  moreover have "pos + nat b - (pos + nat a) = nat (b - a)"
    using assms by (simp add: nat_diff_distrib)
  ultimately show ?thesis
    using assms by (simp add: slice_def ca cb Let_def)
qed

lemma byteAt_sub:
  assumes "drop pos bf = xs" "0 \<le> a" "a < int (length xs)"
  shows "byteAt bf (int pos + a) = Some (xs ! nat a)"
proof -
  have "nat (int pos + a) = pos + nat a" using assms by (simp add: nat_add_distrib)
  moreover have "pos + nat a < length bf" using assms by auto
  moreover have "bf ! (pos + nat a) = xs ! nat a" using assms by auto
  ultimately show ?thesis using assms by (simp add: byteAt_def)
qed

lemma parseEventStreamLine_cong:
  assumes "slice b1 (int p1) (int p1 + fl) = slice b2 (int p2) (int p2 + fl)"
    and "(byteAt b1 (int p1 + fl + 1) = Some space) = (byteAt b2 (int p2 + fl + 1) = Some space)"
    and "slice b1 (int p1 + (fl + 1)) (int p1 + ll) = slice b2 (int p2 + (fl + 1)) (int p2 + ll)"
    and "slice b1 (int p1 + (fl + 2)) (int p1 + ll) = slice b2 (int p2 + (fl + 2)) (int p2 + ll)"
  shows "parseEventStreamLine P b1 p1 fl ll s = parseEventStreamLine P b2 p2 fl ll s"
proof (cases "ll = 0 \<or> \<not> 0 < fl")
  case True
  then show ?thesis by (auto simp: parseEventStreamLine_def)
next
  case False
  then have c: "ll \<noteq> 0" "0 < fl" "\<not> fl < 0" by auto
  show ?thesis
  proof (cases "byteAt b2 (int p2 + fl + 1) = Some space")
    case True
    then have "byteAt b1 (int p1 + fl + 1) = Some space" using assms(2) by simp
    then show ?thesis
      unfolding parseEventStreamLine_def Let_def
      using assms(1,3,4) c True by (simp split del: if_split cong: if_cong)
  next
    case False
    then have "byteAt b1 (int p1 + fl + 1) \<noteq> Some space" using assms(2) by simp
    then show ?thesis
      unfolding parseEventStreamLine_def Let_def
      using assms(1,3,4) c False by (simp split del: if_split cong: if_cong)
  qed
qed

lemma slice_line:
  assumes dr: "drop pos bf = line @ t # rest" and le: "pos \<le> length bf"
    and a: "0 \<le> a" "a \<le> int (length line) + 1" and b: "0 \<le> b" "b \<le> int (length line)"
  shows "slice bf (int pos + a) (int pos + b) = take (nat (b - a)) (drop (nat a) line)"
proof (cases "a \<le> b")
  case True
  show ?thesis using slice_sub[of pos bf line "t # rest" a b] dr le a b True by simp
next
  case False
  have "length (drop pos bf) = length (line @ t # rest)" using dr by simp
  then have len: "length bf = pos + length line + 1 + length rest"
    using le by simp
  have "clampIndex (length bf) (int pos + b) \<le> clampIndex (length bf) (int pos + a)"
    using False a b len by (auto simp: clampIndex_def)
  then show ?thesis using False by (simp add: slice_def Let_def)
qed

lemma byteAt_line:
  assumes dr: "drop pos bf = line @ t # rest" and a: "0 \<le> a" "a \<le> int (length line)"
  shows "byteAt bf (int pos + a) = Some ((line @ [t]) ! nat a)"
proof -
  have "byteAt bf (int pos + a) = Some ((line @ t # rest) ! nat a)"
    using byteAt_sub[OF dr, of a] a by simp
  moreover have "(line @ t # rest) ! nat a = (line @ [t]) ! nat a"
    using a by (cases "nat a < length line") (auto simp: nth_append)
  ultimately show ?thesis by simp
qed

lemma space_test:
  assumes "t \<noteq> space" "0 \<le> a" "a \<le> int (length line)"
  shows "((line @ [t]) ! nat a = space) = ((line @ [lineFeed]) ! nat a = space)"
  using assms by (cases "nat a < length line") (auto simp: nth_append)

lemma parseEventStreamLine_local:
  assumes dr: "drop pos bf = line @ t # rest" and le: "pos \<le> length bf"
    and fl: "0 < fl \<longrightarrow> fl < int (length line)" and t: "t \<noteq> space"
  shows "parseEventStreamLine P bf pos fl (int (length line)) s =
         parseEventStreamLine P (line @ [lineFeed]) 0 fl (int (length line)) s"
proof (cases "0 < fl")
  case False
  then show ?thesis by (simp add: parseEventStreamLine_def)
next
  case True
  with fl have lt: "fl < int (length line)" by simp
  have dr0: "drop 0 (line @ [lineFeed]) = line @ lineFeed # []" by simp
  show ?thesis
  proof (rule parseEventStreamLine_cong)
    show "slice bf (int pos) (int pos + fl) = slice (line @ [lineFeed]) (int 0) (int 0 + fl)"
      using slice_line[OF dr le, of 0 fl] slice_line[OF dr0, of 0 fl] True lt by simp
    show "(byteAt bf (int pos + fl + 1) = Some space) =
          (byteAt (line @ [lineFeed]) (int 0 + fl + 1) = Some space)"
      using byteAt_line[OF dr, of "fl + 1"] byteAt_line[OF dr0, of "fl + 1"] True lt
            space_test[OF t, of "fl + 1" line]
      by (simp add: add.assoc)
    show "slice bf (int pos + (fl + 1)) (int pos + int (length line)) =
          slice (line @ [lineFeed]) (int 0 + (fl + 1)) (int 0 + int (length line))"
      using slice_line[OF dr le, of "fl + 1" "int (length line)"]
            slice_line[OF dr0, of "fl + 1" "int (length line)"] True lt by simp
    show "slice bf (int pos + (fl + 2)) (int pos + int (length line)) =
          slice (line @ [lineFeed]) (int 0 + (fl + 2)) (int 0 + int (length line))"
      using slice_line[OF dr le, of "fl + 2" "int (length line)"]
            slice_line[OF dr0, of "fl + 2" "int (length line)"] True lt by simp
  qed
qed

lemma processLine_dtn [simp]:
  "discardTrailingNewline (processLine P line s) = discardTrailingNewline s"
  by (simp add: processLine_def parseEventStreamLine_def emit_def Let_def split: option.splits)

lemma parseEventStreamLine_dtn_update:
  "parseEventStreamLine P bf pos fl ll (s\<lparr>discardTrailingNewline := d\<rparr>) =
   (parseEventStreamLine P bf pos fl ll s)\<lparr>discardTrailingNewline := d\<rparr>"
  by (simp add: parseEventStreamLine_def emit_def Let_def split: option.splits)

lemma observable_processLine:
  "observable (processLine P line s) = processLine P line (observable s)"
  by (simp add: observable_def processLine_def parseEventStreamLine_dtn_update)

lemma observable_update [simp]:
  "observable (s\<lparr>discardTrailingNewline := d\<rparr>) = observable s"
  by (simp add: observable_def)

lemma observable_idem [simp]: "observable (observable s) = observable s"
  by (simp add: observable_def)

lemma sseAutomaton_line:
  "list_all notEol line \<Longrightarrow>
   sseAutomaton P a acc (line @ rest) s = sseAutomaton P (a \<and> line = []) (acc @ line) rest s"
  by (induction line arbitrary: a acc) (auto simp: notEol_def)

lemma sseAutomaton_noEol:
  "list_all notEol bs \<Longrightarrow> sseAutomaton P a acc bs s = (a \<and> bs = [], acc @ bs, s)"
  using sseAutomaton_line[of bs P a acc "[]" s] by simp

lemma sseAutomaton_eol:
  "list_all notEol line \<Longrightarrow> \<not> notEol t \<Longrightarrow>
   sseAutomaton P False [] (line @ t # rest) s =
     sseAutomaton P (t = carriageReturn) [] rest (processLine P line s)"
  by (auto simp: sseAutomaton_line notEol_def)

lemma sseAutomaton_append:
  "sseAutomaton P a acc (xs @ ys) s =
     (case sseAutomaton P a acc xs s of (a', l, s') \<Rightarrow> sseAutomaton P a' l ys s')"
  by (induction xs arbitrary: a acc s) auto

lemma sseAutomaton_ignore:
  "b \<noteq> lineFeed \<Longrightarrow> sseAutomaton P a acc (b # bs) s = sseAutomaton P False acc (b # bs) s"
  by simp

lemma tolerated_line:
  "list_all notEol line \<Longrightarrow>
   tolerated seen a st (line @ rest) = tolerated seen (a \<and> line = []) (st \<and> line = []) rest"
  by (induction line arbitrary: a st) (auto simp: notEol_def)

lemma tolerated_eol:
  "list_all notEol line \<Longrightarrow> \<not> notEol t \<Longrightarrow> tolerated seen False True (line @ t # rest) \<Longrightarrow>
   tolerated (seen \<or> t = carriageReturn) (t = carriageReturn) True rest"
  by (cases "line = []") (auto simp: tolerated_line notEol_def split: if_splits)

lemma tolerated_ignore:
  "b \<noteq> lineFeed \<Longrightarrow> tolerated seen a st (b # bs) = tolerated seen False st (b # bs)"
  by simp

lemma split_at_eol:
  "\<not> list_all notEol xs \<Longrightarrow>
   xs = takeWhile notEol xs @ xs ! length (takeWhile notEol xs) #
        drop (Suc (length (takeWhile notEol xs))) xs \<and>
   \<not> notEol (xs ! length (takeWhile notEol xs))"
  by (induction xs) auto

lemma list_all_takeWhile [simp]: "list_all Q (takeWhile Q xs)"
  by (induction xs) auto

lemma parseEventStreamLine_negative:
  "fl < 0 \<Longrightarrow> fl' < 0 \<Longrightarrow>
   parseEventStreamLine P bf pos fl ll s = parseEventStreamLine P bf pos fl' ll s"
  by (simp add: parseEventStreamLine_def)

lemma length_takeWhile_neq_less:
  "x \<in> set xs \<Longrightarrow> length (takeWhile (\<lambda>c. c \<noteq> x) xs) < length xs"
  by (induction xs) auto

lemma fieldOK_bound: "fieldOK seg fl \<Longrightarrow> 0 < fl \<longrightarrow> fl < int (length seg)"
  by (auto simp: fieldOK_def length_takeWhile_neq_less split: if_splits)

lemma loopPost_step:
  assumes "loopPost P bf pos' seen' a' s2 r"
    and "sseAutomaton P a [] (drop pos bf) (observable s) =
         sseAutomaton P a' [] (drop pos' bf) (observable s2)"
    and "seen' \<longrightarrow> seen \<or> carriageReturn \<in> set (drop pos bf)"
    and "set (drop pos' bf) \<subseteq> set (drop pos bf)"
  shows "loopPost P bf pos seen a s r"
  using assms by (auto simp: loopPost_def split: prod.splits)

lemma eol_not_space: "\<not> notEol t \<Longrightarrow> t \<noteq> space"
  by (auto simp: notEol_def space_def carriageReturn_def lineFeed_def)

lemma lineLoop_spec:
  "pos \<le> length bf \<Longrightarrow> i \<le> length bf - pos \<Longrightarrow>
   list_all notEol (segment bf pos i) \<Longrightarrow> fieldOK (segment bf pos i) sfl \<Longrightarrow>
   (afterCR \<longrightarrow> discardTrailingNewline s) \<Longrightarrow> (discardTrailingNewline s \<longrightarrow> seenCR) \<Longrightarrow>
   (carriageReturn \<in> set (take pos bf) \<longrightarrow> seenCR) \<Longrightarrow>
   tolerated seenCR afterCR True (drop pos bf) \<Longrightarrow>
   loopPost P bf pos seenCR afterCR s (lineLoop P bf pos i sfl s)"
proof (induction "length bf - pos" arbitrary: pos i sfl s afterCR seenCR rule: less_induct)
  case less
  show ?case
  proof (cases "pos < length bf")
    case False
    with less.prems have "pos = length bf" "i = 0" by auto
    with less.prems show ?thesis
      by (subst lineLoop.simps) (simp add: loopPost_def segment_def)
  next
    case True
    note lt = True
    define skip where "skip = (discardTrailingNewline s \<and> bf ! pos = lineFeed)"
    define pos1 where "pos1 = (if skip then pos + 1 else pos)"
    have dp: "drop pos bf = bf ! pos # drop (Suc pos) bf"
      using lt by (simp add: Cons_nth_drop_Suc)
    have F1: "pos1 \<le> length bf" using lt by (simp add: pos1_def)
    have skipA: "skip \<Longrightarrow> afterCR"
    proof -
      assume sk: skip
      then have "seenCR" using less.prems(6) by (simp add: skip_def)
      moreover have "tolerated seenCR afterCR True (lineFeed # drop (Suc pos) bf)"
        using less.prems(8) dp sk by (simp add: skip_def)
      ultimately show afterCR by simp
    qed
    have skipI: "skip \<Longrightarrow> i \<le> pos"
    proof (rule ccontr)
      assume sk: skip and "\<not> i \<le> pos"
      then have "0 < i - pos" by simp
      then have "segment bf pos i = bf ! pos # take (i - pos - 1) (drop (Suc pos) bf)"
        unfolding segment_def by (subst dp) (cases "i - pos", simp_all)
      with less.prems(3) have "notEol (bf ! pos)" by simp
      with sk show False by (simp add: skip_def notEol_def)
    qed
    have seg1: "segment bf pos1 i = segment bf pos i"
      using skipI by (auto simp: pos1_def segment_before)
    have F2: "list_all notEol (segment bf pos1 i)" "fieldOK (segment bf pos1 i) sfl"
      using less.prems(3,4) seg1 by simp_all
    have F3: "i \<le> length bf" using less.prems(2) by simp
    have d1: "skip \<Longrightarrow> drop pos bf = lineFeed # drop pos1 bf"
      using dp by (simp add: skip_def pos1_def)
    have F4: "sseAutomaton P afterCR [] (drop pos bf) (observable s) =
              sseAutomaton P False [] (drop pos1 bf) (observable s)"
    proof (cases skip)
      case True
      then show ?thesis using skipA d1 by simp
    next
      case False
      then have p: "pos1 = pos" by (simp add: pos1_def)
      show ?thesis
      proof (cases "bf ! pos = lineFeed")
        case True
        with False have "\<not> discardTrailingNewline s" by (simp add: skip_def)
        with less.prems(5) show ?thesis by (auto simp: p)
      next
        case False
        show ?thesis unfolding p dp using False by simp
      qed
    qed
    have F5: "tolerated seenCR False True (drop pos1 bf)"
    proof (cases skip)
      case True
      then show ?thesis using less.prems(8) d1 by simp
    next
      case False
      then have p: "pos1 = pos" by (simp add: pos1_def)
      show ?thesis
      proof (cases "bf ! pos = lineFeed")
        case True
        with False have "\<not> discardTrailingNewline s" by (simp add: skip_def)
        with less.prems(5,8) show ?thesis by (auto simp: p)
      next
        case False
        have "tolerated seenCR afterCR True (bf ! pos # drop (Suc pos) bf)"
          using less.prems(8) dp by simp
        then have "tolerated seenCR False True (bf ! pos # drop (Suc pos) bf)"
          using False by simp
        then show ?thesis unfolding p using dp by simp
      qed
    qed
    have F6: "carriageReturn \<in> set (take pos1 bf) \<longrightarrow> seenCR"
      using less.prems(7) lt by (auto simp: pos1_def skip_def take_Suc_set)
    have sub1: "set (drop pos1 bf) \<subseteq> set (drop pos bf)"
      using dp by (auto simp: pos1_def)
    obtain ll fl dtn where sc: "scanLine bf pos1 i (- 1) sfl False = (ll, fl, dtn)"
      by (cases "scanLine bf pos1 i (- 1) sfl False") auto
    from scanLine_spec[OF F1 F3 _ F2, of "- 1" False]
    have post: "scanPost bf pos1 (ll, fl, dtn)" by (simp add: sc)
    let ?rest = "drop pos1 bf"
    let ?line = "takeWhile notEol ?rest"
    let ?s1 = "s\<lparr>discardTrailingNewline := dtn\<rparr>"
    from post have fok: "fieldOK ?line fl" by (simp add: scanPost_def)
    have unf: "lineLoop P bf pos i sfl s =
        (if ll < 0 then (pos1, length bf - pos1, fl, ?s1)
         else lineLoop P bf (pos1 + nat (ll + 1)) 0 (- 1) (parseEventStreamLine P bf pos1 fl ll ?s1))"
      using lt sc by (subst lineLoop.simps) (simp add: pos1_def skip_def)
    show ?thesis
    proof (cases "list_all notEol ?rest")
      case True
      with post have neg: "ll < 0" and cr: "dtn \<longrightarrow> carriageReturn \<in> set (take pos1 bf)"
        by (simp_all add: scanPost_def)
      have tw: "?line = ?rest" using True by (simp add: list_all_iff takeWhile_eq_all_conv)
      have fok': "fieldOK ?rest fl" using fok by (simp only: tw)
      have "loopPost P bf pos1 seenCR False s (pos1, length bf - pos1, fl, ?s1)"
        using True fok' F1 cr F6 by (simp add: loopPost_def sseAutomaton_noEol)
      from loopPost_step[OF this F4 _ sub1]
      have "loopPost P bf pos seenCR afterCR s (pos1, length bf - pos1, fl, ?s1)" by simp
      then show ?thesis using unf neg by simp
    next
      case False
      with post have ll: "ll = int (length ?line)"
        and crd: "?rest ! length ?line = carriageReturn \<longrightarrow> dtn"
        and dcr: "dtn \<longrightarrow> carriageReturn \<in> set (take (pos1 + length ?line + 1) bf)"
        by (simp_all add: scanPost_def)
      define t where "t = ?rest ! length ?line"
      define pos' where "pos' = pos1 + nat (ll + 1)"
      have pos'eq: "pos' = pos1 + length ?line + 1" by (simp add: pos'_def ll)
      from split_at_eol[OF False]
      have sp: "?rest = ?line @ t # drop (Suc (length ?line)) ?rest" and eol: "\<not> notEol t"
        by (simp_all add: t_def)
      have rest': "drop (Suc (length ?line)) ?rest = drop pos' bf"
        by (simp add: pos'eq add.commute)
      have dr: "drop pos1 bf = ?line @ t # drop pos' bf"
        using sp rest' by simp
      have "length ?rest = length ?line + 1 + length (drop pos' bf)"
        using arg_cong[OF dr, of length] by simp
      then have le': "pos' \<le> length bf" using pos'eq F1 by simp
      have all: "list_all notEol ?line" by simp
      have flb: "0 < fl \<longrightarrow> fl < int (length ?line)"
        using fok by (rule fieldOK_bound)
      have "parseEventStreamLine P (?line @ [lineFeed]) 0 fl ll ?s1 = processLine P ?line ?s1"
        using fok parseEventStreamLine_negative[of fl "- 1"] unfolding processLine_def ll
        by (cases "colon \<in> set ?line") (simp_all add: fieldOK_def colonIndex_def)
      then have pl: "parseEventStreamLine P bf pos1 fl ll ?s1 = processLine P ?line ?s1"
        using parseEventStreamLine_local[OF dr F1 flb eol_not_space[OF eol]] ll by simp
      let ?s2 = "processLine P ?line ?s1"
      have tk: "take pos' bf = take pos1 bf @ ?line @ [t]"
      proof -
        have "bf = take pos1 bf @ ?line @ t # drop pos' bf"
          using dr by (metis append_take_drop_id)
        then have "take pos' bf = take pos' (take pos1 bf @ ?line @ t # drop pos' bf)" by simp
        also have "\<dots> = take pos1 bf @ ?line @ [t]"
          using F1 by (simp add: pos'eq min_absorb2)
        finally show ?thesis .
      qed
      have ncr: "carriageReturn \<notin> set ?line"
        using all by (auto simp: list_all_iff notEol_def)
      have crin: "carriageReturn \<in> set (take pos' bf) \<longrightarrow> seenCR \<or> t = carriageReturn"
        using F6 ncr by (auto simp: tk)
      have dtn2: "dtn \<longrightarrow> seenCR \<or> t = carriageReturn"
        using dcr crin by (simp add: pos'eq)
      have tol': "tolerated (seenCR \<or> t = carriageReturn) (t = carriageReturn) True (drop pos' bf)"
        using tolerated_eol[OF all eol] F5 dr by simp
      have dec: "length bf - pos' < length bf - pos" using lt le' pos'eq by (auto simp: pos1_def)
      have IH: "loopPost P bf pos' (seenCR \<or> t = carriageReturn) (t = carriageReturn) ?s2
                  (lineLoop P bf pos' 0 (- 1) ?s2)"
        using less.hyps[OF dec le', of 0 "- 1" "t = carriageReturn" ?s2 "seenCR \<or> t = carriageReturn"]
              crd dtn2 crin tol'
        by (simp add: segment_def t_def)
      have aut: "sseAutomaton P afterCR [] (drop pos bf) (observable s) =
                 sseAutomaton P (t = carriageReturn) [] (drop pos' bf) (observable ?s2)"
        unfolding F4 by (subst dr) (simp add: sseAutomaton_eol[OF all eol] observable_processLine)
      have sets: "set (drop pos1 bf) = set ?line \<union> insert t (set (drop pos' bf))"
        using arg_cong[OF dr, of set] by simp
      have tin: "t \<in> set (drop pos bf)" using sets sub1 by blast
      have sub2: "set (drop pos' bf) \<subseteq> set (drop pos bf)" using sets sub1 by blast
      have "loopPost P bf pos seenCR afterCR s (lineLoop P bf pos' 0 (- 1) ?s2)"
        using loopPost_step[OF IH aut _ sub2] tin by auto
      moreover have "\<not> ll < 0" using ll by simp
      then have "lineLoop P bf pos i sfl s = lineLoop P bf pos' 0 (- 1) ?s2"
        using unf pl by (simp add: pos'_def)
      ultimately show ?thesis by simp
    qed
  qed
qed

lemma hasBom_iff: "hasBom b \<longleftrightarrow> (\<exists>rest. b = bom @ rest)"
proof (cases b)
  case Nil
  then show ?thesis by (simp add: hasBom_def bom_def byteAt_def)
next
  case (Cons x xs)
  note c1 = Cons
  show ?thesis
  proof (cases xs)
    case Nil
    then show ?thesis using c1 by (simp add: hasBom_def bom_def byteAt_def)
  next
    case (Cons y ys)
    note c2 = Cons
    show ?thesis
    proof (cases ys)
      case Nil
      then show ?thesis using c1 c2 by (simp add: hasBom_def bom_def byteAt_def)
    next
      case (Cons z zs)
      then show ?thesis using c1 c2 by (auto simp: hasBom_def bom_def byteAt_def)
    qed
  qed
qed

lemma hasBom_append: "hasBom b \<Longrightarrow> hasBom (b @ c)"
  by (auto simp: hasBom_iff)

lemma hasBom_prefix: "hasBom (b @ c) \<Longrightarrow> 3 \<le> length b \<Longrightarrow> hasBom b"
proof -
  assume h: "hasBom (b @ c)" and l: "3 \<le> length b"
  from h obtain rest where r: "b @ c = bom @ rest" by (auto simp: hasBom_iff)
  have "take 3 (b @ c) = take 3 b" using l by simp
  moreover have "take 3 (bom @ rest) = bom" by (simp add: bom_def)
  ultimately have "take 3 b = bom" using r by simp
  then have "b = bom @ drop 3 b" by (metis append_take_drop_id)
  then show "hasBom b" by (auto simp: hasBom_iff)
qed

lemma streamOK_new [simp]: "streamOK newStream" "pending newStream = []" "isFirst newStream"
  by (simp_all add: streamOK_def newStream_def pending_def)

lemma bom_notEol: "list_all notEol bom"
  by (simp add: bom_def notEol_def carriageReturn_def lineFeed_def)

lemma tolerated_unseen: "tolerated False a st bs = tolerated False a' st' bs"
  by (cases bs) simp_all

lemma tolerated_bom: "tolerated False a st (bom @ bs) = tolerated False a' st' bs"
  using tolerated_line[OF bom_notEol, of False a st bs] tolerated_unseen by blast

lemma sseAutomaton_afterCR:
  "sseAutomaton P a acc bs s = (a', l', s') \<Longrightarrow> (a \<longrightarrow> acc = []) \<Longrightarrow> (a' \<longrightarrow> l' = [])"
  by (induction bs arbitrary: a acc s) (auto split: if_splits)

lemma tolerated_append:
  "(a \<longrightarrow> acc = []) \<Longrightarrow> sseAutomaton P a acc xs s = (a', l', s') \<Longrightarrow>
   tolerated seen a (acc = []) (xs @ ys) =
     (tolerated seen a (acc = []) xs \<and>
      tolerated (seen \<or> carriageReturn \<in> set xs) a' (l' = []) ys)"
proof (induction xs arbitrary: seen a acc s)
  case Nil
  then show ?case by simp
next
  case (Cons b xs)
  show ?case
  proof (cases "b = lineFeed")
    case True
    show ?thesis
    proof (cases a)
      case True
      with Cons.prems have e: "acc = []" by simp
      have r: "sseAutomaton P False [] xs s = (a', l', s')"
        using Cons.prems(2) \<open>b = lineFeed\<close> True e by simp
      show ?thesis
        using Cons.IH[OF _ r, of seen] \<open>b = lineFeed\<close> True e by auto
    next
      case False
      have r: "sseAutomaton P False [] xs (processLine P acc s) = (a', l', s')"
        using Cons.prems(2) \<open>b = lineFeed\<close> False by simp
      show ?thesis
        using Cons.IH[OF _ r, of seen] \<open>b = lineFeed\<close> False by auto
    qed
  next
    case False
    note nlf = False
    show ?thesis
    proof (cases "b = carriageReturn")
      case True
      have r: "sseAutomaton P True [] xs (processLine P acc s) = (a', l', s')"
        using Cons.prems(2) True by simp
      show ?thesis
        using Cons.IH[OF _ r, of True] True by auto
    next
      case False
      have r: "sseAutomaton P False (acc @ [b]) xs s = (a', l', s')"
        using Cons.prems(2) False nlf by simp
      show ?thesis
        using Cons.IH[OF _ r, of seen] False nlf by auto
    qed
  qed
qed

lemma onData_spec:
  assumes rel: "related seen a st s"
    and tol: "tolerated seen a True (stripBom (isFirst st) (pending st @ chunk))"
  shows "case sseAutomaton P a [] (stripBom (isFirst st) (pending st @ chunk)) (observable s) of
           (a', l', t') \<Rightarrow>
             related (seen \<or> carriageReturn \<in> set chunk) a'
               (fst (onData P chunk (st, s))) (snd (onData P chunk (st, s))) \<and>
             \<not> isFirst (fst (onData P chunk (st, s))) \<and>
             l' = pending (fst (onData P chunk (st, s))) \<and>
             t' = observable (snd (onData P chunk (st, s)))"
proof -
  have ok: "streamOK st" using rel by (simp add: related_def)
  define b0 where "b0 = pending st @ chunk"
  define b1 where "b1 = stripBom (isFirst st) b0"
  have b0eq: "(case buf st of Some b \<Rightarrow> b @ chunk | None \<Rightarrow> chunk) = b0"
    by (simp add: b0_def pending_def split: option.splits)
  have b1eq: "(if isFirst st \<and> hasBom b0 then drop (length bom) b0 else b0) = b1"
    by (simp add: b1_def stripBom_def)
  have seg: "segment b1 0 (startingPos st) = pending st"
  proof (cases "isFirst st")
    case True
    then show ?thesis using ok by (simp add: streamOK_def segment_def)
  next
    case False
    then show ?thesis using ok by (simp add: streamOK_def segment_def b1_def b0_def stripBom_def)
  qed
  have le: "startingPos st \<le> length b1 - 0"
  proof (cases "isFirst st")
    case True
    then show ?thesis using ok by (simp add: streamOK_def)
  next
    case False
    then show ?thesis using ok by (simp add: streamOK_def b1_def b0_def stripBom_def)
  qed
  have sub: "set b1 \<subseteq> set (pending st) \<union> set chunk"
    by (auto simp: b1_def b0_def stripBom_def dest: in_set_dropD)
  have ncr: "carriageReturn \<notin> set (pending st)"
    using ok by (auto simp: streamOK_def list_all_iff notEol_def)
  obtain pos sp sfl s' where r: "lineLoop P b1 0 (startingPos st) (startingFieldLength st) s = (pos, sp, sfl, s')"
    by (cases "lineLoop P b1 0 (startingPos st) (startingFieldLength st) s") auto
  have p3: "list_all notEol (segment b1 0 (startingPos st))"
    and p4: "fieldOK (segment b1 0 (startingPos st)) (startingFieldLength st)"
    unfolding seg using ok by (simp_all add: streamOK_def)
  have p5: "a \<longrightarrow> discardTrailingNewline s" and p6: "discardTrailingNewline s \<longrightarrow> seen"
    using rel by (simp_all add: related_def)
  have p8: "tolerated seen a True (drop 0 b1)" using tol by (simp add: b1_def b0_def)
  have "loopPost P b1 0 seen a s (lineLoop P b1 0 (startingPos st) (startingFieldLength st) s)"
    using lineLoop_spec[OF le0 le p3 p4 p5 p6 _ p8, of P] by simp
  then have post: "loopPost P b1 0 seen a s (pos, sp, sfl, s')" by (simp only: r)
  have od: "onData P chunk (st, s) =
      (\<lparr>isFirst = False,
        buf = (if pos = length b1 then None else if pos > 0 then Some (drop pos b1) else Some b1),
        startingPos = sp, startingFieldLength = sfl\<rparr>, s')"
    unfolding onData_def by (simp only: prod.case Let_def b0eq b1eq r)
  have pend: "pending (fst (onData P chunk (st, s))) = drop pos b1"
    using post by (auto simp: od pending_def loopPost_def)
  obtain a' l' t' where aut: "sseAutomaton P a [] b1 (observable s) = (a', l', t')"
    by (cases "sseAutomaton P a [] b1 (observable s)") auto
  have emp: "a' \<longrightarrow> l' = []" using sseAutomaton_afterCR[OF aut] by simp
  have l': "l' = drop pos b1" and t': "t' = observable s'"
    and ad: "a' \<longrightarrow> discardTrailingNewline s'"
    and ds: "discardTrailingNewline s' \<longrightarrow> seen \<or> carriageReturn \<in> set b1"
    and all: "list_all notEol (drop pos b1)" and fok: "fieldOK (drop pos b1) sfl"
    and sp: "sp = length b1 - pos" and ple: "pos \<le> length b1"
    using post aut by (simp_all add: loopPost_def)
  have ds': "discardTrailingNewline s' \<longrightarrow> seen \<or> carriageReturn \<in> set chunk"
    using ds sub ncr by auto
  have "related (seen \<or> carriageReturn \<in> set chunk) a'
          (fst (onData P chunk (st, s))) (snd (onData P chunk (st, s)))"
    unfolding related_def streamOK_def pend
    using all fok sp ple ad emp l' ds' by (simp add: od)
  then show ?thesis
    using aut l' t' pend unfolding b1_def[symmetric] b0_def[symmetric]
    by (simp add: od)
qed

lemma feed_spec:
  "related seen a st s \<Longrightarrow> \<not> isFirst st \<Longrightarrow>
   tolerated seen a (pending st = []) (concat chunks) \<Longrightarrow>
   (case sseAutomaton P a (pending st) (concat chunks) (observable s) of
      (a', l', t') \<Rightarrow> l' = pending (fst (feed P chunks (st, s))) \<and>
                      t' = observable (snd (feed P chunks (st, s))))"
proof (induction chunks arbitrary: seen a st s)
  case Nil
  then show ?case by simp
next
  case (Cons c cs)
  obtain st1 s1 where o: "onData P c (st, s) = (st1, s1)" by (cases "onData P c (st, s)") auto
  have ok: "streamOK st" and ap: "a \<longrightarrow> pending st = []"
    using Cons.prems(1) by (simp_all add: related_def)
  have all: "list_all notEol (pending st)" using ok by (simp add: streamOK_def)
  have same: "\<And>bs t. sseAutomaton P a [] (pending st @ bs) t = sseAutomaton P a (pending st) bs t"
    using sseAutomaton_line[OF all, of P a "[]"] ap by auto
  obtain a1 l1 t1 where aut: "sseAutomaton P a (pending st) c (observable s) = (a1, l1, t1)"
    by (cases "sseAutomaton P a (pending st) c (observable s)") auto
  have tl: "tolerated seen a (pending st = []) c"
    and tl2: "tolerated (seen \<or> carriageReturn \<in> set c) a1 (l1 = []) (concat cs)"
    using tolerated_append[OF ap aut, of seen "concat cs"] Cons.prems(3) by simp_all
  have "tolerated seen a True (pending st @ c)"
    using tolerated_line[OF all, of seen a True c] tl ap by auto
  then have tl0: "tolerated seen a True (stripBom (isFirst st) (pending st @ c))"
    using Cons.prems(2) by (simp add: stripBom_def)
  from onData_spec[OF Cons.prems(1) tl0, of P] o Cons.prems(2) aut
  have rel1: "related (seen \<or> carriageReturn \<in> set c) a1 st1 s1" and nf: "\<not> isFirst st1"
    and l1: "l1 = pending st1" and t1: "t1 = observable s1"
    by (simp_all add: stripBom_def same)
  have "case sseAutomaton P a1 (pending st1) (concat cs) (observable s1) of
      (a', l', t') \<Rightarrow> l' = pending (fst (feed P cs (st1, s1))) \<and>
                      t' = observable (snd (feed P cs (st1, s1)))"
    using Cons.IH[OF rel1 nf] tl2 l1 by simp
  then show ?case
    using o aut l1 t1 by (simp add: sseAutomaton_append)
qed

lemma chunking_lemma:
  assumes dtn: "\<not> discardTrailingNewline s"
    and tol: "tolerated False False True (concat chunks)"
    and bm: "hasBom (concat chunks) \<longrightarrow> chunks \<noteq> [] \<and> 3 \<le> length (hd chunks)"
  shows "observable (snd (feed P chunks (newStream, s))) =
         snd (snd (sseAutomaton P False [] (stripBom True (concat chunks)) (observable s)))"
proof (cases chunks)
  case Nil
  then show ?thesis using dtn by (simp add: stripBom_def hasBom_iff bom_def)
next
  case (Cons c cs)
  obtain st1 s1 where o: "onData P c (newStream, s) = (st1, s1)"
    by (cases "onData P c (newStream, s)") auto
  have strip: "stripBom True (c @ concat cs) = stripBom True c @ concat cs"
  proof (cases "hasBom (c @ concat cs)")
    case True
    with bm Cons have l3: "3 \<le> length c" by simp
    have "hasBom c" using hasBom_prefix[OF True l3] .
    then show ?thesis using True l3 by (simp add: stripBom_def bom_def)
  next
    case False
    then have "\<not> hasBom c" using hasBom_append by blast
    with False show ?thesis by (simp add: stripBom_def)
  qed
  have tols: "tolerated False False True (stripBom True c @ concat cs)"
  proof (cases "hasBom (c @ concat cs)")
    case True
    then obtain rest where "c @ concat cs = bom @ rest" by (auto simp: hasBom_iff)
    then have "tolerated False False True (bom @ rest)"
      and "stripBom True (c @ concat cs) = rest"
      using tol Cons True by (simp_all add: stripBom_def)
    then show ?thesis using tolerated_bom strip by metis
  next
    case False
    then show ?thesis using tol Cons strip by (simp add: stripBom_def)
  qed
  obtain a1 l1 t1 where aut: "sseAutomaton P False [] (stripBom True c) (observable s) = (a1, l1, t1)"
    by (cases "sseAutomaton P False [] (stripBom True c) (observable s)") auto
  have sub: "carriageReturn \<in> set (stripBom True c) \<longleftrightarrow> carriageReturn \<in> set c"
  proof (cases "hasBom c")
    case True
    then obtain rest where "c = bom @ rest" by (auto simp: hasBom_iff)
    then show ?thesis by (simp add: stripBom_def bom_def carriageReturn_def)
  next
    case False
    then show ?thesis by (simp add: stripBom_def)
  qed
  have tl: "tolerated False False True (stripBom True c)"
    and tl2: "tolerated (carriageReturn \<in> set c) a1 (l1 = []) (concat cs)"
    using tolerated_append[OF _ aut, of False "concat cs"] tols sub by simp_all
  have rel0: "related False False newStream s" using dtn by (simp add: related_def)
  from onData_spec[OF rel0, of c P] tl o aut
  have rel1: "related (carriageReturn \<in> set c) a1 st1 s1" and nf: "\<not> isFirst st1"
    and l1: "l1 = pending st1" and t1: "t1 = observable s1"
    by simp_all
  have "case sseAutomaton P a1 (pending st1) (concat cs) (observable s1) of
      (a', l', t') \<Rightarrow> l' = pending (fst (feed P cs (st1, s1))) \<and>
                      t' = observable (snd (feed P cs (st1, s1)))"
    using feed_spec[OF rel1 nf] tl2 l1 by simp
  then show ?thesis
    using Cons o aut l1 t1 strip by (simp add: sseAutomaton_append split: prod.splits)
qed


section \<open>One line, against the words of the specification\<close>

lemma take_length_takeWhile: "take (length (takeWhile Q xs)) xs = takeWhile Q xs"
  by (induction xs) auto

lemma drop_length_takeWhile: "drop (length (takeWhile Q xs)) xs = dropWhile Q xs"
  by (induction xs) auto

lemma processLine_blank:
  "processLine P [] s =
     (if data s \<noteq> []
      then (emit (MessageEvent
                   (case eventName s of None \<Rightarrow> ''message''
                    | Some n \<Rightarrow> if n = [] then ''message'' else n)
                   (butlast (data s)) (lastEventId s) (original P (url s))) s)
             \<lparr>data := [], eventName := None\<rparr>
      else s\<lparr>eventName := None\<rparr>)"
  by (simp add: processLine_def parseEventStreamLine_def)

lemma processLine_no_field:
  assumes "line \<noteq> []" "colonIndex line \<le> 0"
  shows "processLine P line s = s"
  using assms by (simp add: processLine_def parseEventStreamLine_def)

lemma processLine_with_field:
  assumes ne: "line \<noteq> []" and pos: "0 < colonIndex line"
  shows "processLine P line s =
     (let field = takeWhile (\<lambda>c. c \<noteq> colon) line; value = fieldValue line
      in if field = ''data'' then s\<lparr>data := data s @ value @ [CHR 0x0A]\<rparr>
         else if field = ''event'' then s\<lparr>eventName := Some value\<rparr>
         else if field = ''id'' then s\<lparr>lastEventId := value\<rparr>
         else if field = ''retry'' then
           (case parseInt10 value of Some retry \<Rightarrow> s\<lparr>reconnectInterval := retry\<rparr> | None \<Rightarrow> s)
         else s)"
proof -
  define k where "k = length (takeWhile (\<lambda>c. c \<noteq> colon) line)"
  have cin: "colon \<in> set line" using pos by (auto simp: colonIndex_def split: if_splits)
  have ci: "colonIndex line = int k" using cin by (simp add: colonIndex_def k_def)
  have klt: "k < length line" using cin unfolding k_def by (rule length_takeWhile_neq_less)
  have kpos: "0 < k" using pos ci by simp
  have dr0: "drop 0 (line @ [lineFeed]) = line @ lineFeed # []" by simp
  have field: "slice (line @ [lineFeed]) (int 0) (int 0 + int k) = takeWhile (\<lambda>c. c \<noteq> colon) line"
    using slice_line[OF dr0, of 0 "int k"] klt by (simp add: k_def take_length_takeWhile)
  have bt: "byteAt (line @ [lineFeed]) (int 0 + (int k + 1)) = Some ((line @ [lineFeed]) ! (k + 1))"
    using byteAt_line[OF dr0, of "int k + 1"] klt by (simp add: nat_add_distrib)
  have val: "\<And>st. st = k + 1 \<or> st = k + 2 \<Longrightarrow>
      slice (line @ [lineFeed]) (int 0 + int st) (int 0 + int (length line)) = drop st line"
  proof -
    fix st assume "st = k + 1 \<or> st = k + 2"
    then have "int st \<le> int (length line) + 1" using klt by auto
    from slice_line[OF dr0 _ _ this, of "int (length line)"]
    show "slice (line @ [lineFeed]) (int 0 + int st) (int 0 + int (length line)) = drop st line"
      by simp
  qed
  have dw: "drop 1 (dropWhile (\<lambda>c. c \<noteq> colon) line) = drop (k + 1) line"
    by (simp add: k_def drop_length_takeWhile[symmetric])
  have fv0: "fieldValue line =
      (if drop (k + 1) line \<noteq> [] \<and> hd (drop (k + 1) line) = space
       then tl (drop (k + 1) line) else drop (k + 1) line)"
    unfolding fieldValue_def dw Let_def ..
  have fv: "fieldValue line =
      (if (line @ [lineFeed]) ! (k + 1) \<noteq> space then drop (k + 1) line else drop (k + 2) line)"
  proof (cases "k + 1 < length line")
    case True
    then have "(line @ [lineFeed]) ! (k + 1) = line ! (k + 1)" by (simp add: nth_append)
    moreover have "drop (k + 1) line \<noteq> []" using True by simp
    moreover have "hd (drop (k + 1) line) = line ! (k + 1)" using True by (simp add: hd_drop_conv_nth)
    moreover have "tl (drop (k + 1) line) = drop (k + 2) line" by (simp add: tl_drop drop_Suc)
    ultimately show ?thesis unfolding fv0 by simp
  next
    case False
    then have e: "k + 1 = length line" using klt by simp
    then have "(line @ [lineFeed]) ! (k + 1) = lineFeed" by (simp add: nth_append)
    then show ?thesis unfolding fv0 using e by (simp add: lineFeed_def space_def)
  qed
  have v1: "slice (line @ [lineFeed]) (int k + 1) (int (length line)) = drop (Suc k) line"
    using val[of "k + 1"] by (simp add: add.commute)
  have v2: "slice (line @ [lineFeed]) (int k + 2) (int (length line)) = drop (Suc (Suc k)) line"
    using val[of "k + 2"] by (simp add: add.commute)
  have nz: "int (length line) \<noteq> 0" using ne by simp
  show ?thesis
  proof (cases "(line @ [lineFeed]) ! (k + 1) = space")
    case True
    show ?thesis
      unfolding processLine_def parseEventStreamLine_def Let_def ci
      using kpos nz field bt v1 v2 fv True
      by (simp add: toString_def add.assoc split del: if_split cong: if_cong)
  next
    case False
    show ?thesis
      unfolding processLine_def parseEventStreamLine_def Let_def ci
      using kpos nz field bt v1 v2 fv False
      by (simp add: toString_def add.assoc split del: if_split cong: if_cong)
  qed
qed

section \<open>Blocks of lines\<close>

lemma isField_colonIndex: "isField name line \<Longrightarrow> name \<noteq> [] \<Longrightarrow> 0 < colonIndex line"
  by (auto simp: isField_def colonIndex_def)

lemma processLine_fields:
  assumes "line \<noteq> []"
  shows "processLine P line s =
     (if isField ''data'' line then s\<lparr>data := data s @ fieldValue line @ [CHR 0x0A]\<rparr>
      else if isField ''event'' line then s\<lparr>eventName := Some (fieldValue line)\<rparr>
      else if isField ''id'' line then s\<lparr>lastEventId := fieldValue line\<rparr>
      else if isField ''retry'' line then
        (case parseInt10 (fieldValue line) of Some retry \<Rightarrow> s\<lparr>reconnectInterval := retry\<rparr>
         | None \<Rightarrow> s)
      else s)"
proof (cases "0 < colonIndex line")
  case True
  then have "colon \<in> set line" by (auto simp: colonIndex_def split: if_splits)
  then show ?thesis
    using processLine_with_field[OF assms True, of P s]
    by (simp add: isField_def Let_def split del: if_split cong: if_cong)
next
  case False
  then have "\<not> isField ''data'' line" "\<not> isField ''event'' line" "\<not> isField ''id'' line"
    "\<not> isField ''retry'' line"
    using isField_colonIndex by fastforce+
  then show ?thesis using processLine_no_field[OF assms, of P s] False by simp
qed

lemma processLines_effect:
  "list_all (\<lambda>l. l \<noteq> []) block \<Longrightarrow>
   data (processLines P block s) = data s @ concat (map (\<lambda>v. v @ [CHR 0x0A]) (dataValues block)) \<and>
   eventName (processLines P block s) =
     (if eventNames block = [] then eventName s else Some (last (eventNames block))) \<and>
   lastEventId (processLines P block s) = last (lastEventId s # idValues block) \<and>
   emitted (processLines P block s) = emitted s \<and>
   url (processLines P block s) = url s"
proof (induction block arbitrary: s)
  case Nil
  then show ?case by (simp add: dataValues_def eventNames_def idValues_def)
next
  case (Cons l ls)
  then have ne: "l \<noteq> []" and rest: "list_all (\<lambda>l. l \<noteq> []) ls" by simp_all
  note IH = Cons.IH[OF rest, of "processLine P l s"]
  consider (d) "isField ''data'' l" | (e) "isField ''event'' l" | (i) "isField ''id'' l"
    | (r) "isField ''retry'' l" "\<not> isField ''data'' l" "\<not> isField ''event'' l" "\<not> isField ''id'' l"
    | (n) "\<not> isField ''data'' l" "\<not> isField ''event'' l" "\<not> isField ''id'' l" "\<not> isField ''retry'' l"
    by blast
  then show ?case
  proof cases
    case d
    then have "\<not> isField ''event'' l" "\<not> isField ''id'' l" by (auto simp: isField_def)
    then show ?thesis using IH d processLine_fields[OF ne, of P s]
      by (simp add: dataValues_def eventNames_def idValues_def)
  next
    case e
    then have "\<not> isField ''data'' l" "\<not> isField ''id'' l" by (auto simp: isField_def)
    then show ?thesis using IH e processLine_fields[OF ne, of P s]
      by (simp add: dataValues_def eventNames_def idValues_def)
  next
    case i
    then have "\<not> isField ''data'' l" "\<not> isField ''event'' l" by (auto simp: isField_def)
    then show ?thesis using IH i processLine_fields[OF ne, of P s]
      by (simp add: dataValues_def eventNames_def idValues_def)
  next
    case r
    then show ?thesis using IH processLine_fields[OF ne, of P s]
      by (simp add: dataValues_def eventNames_def idValues_def split: option.splits)
  next
    case n
    then show ?thesis using IH processLine_fields[OF ne, of P s]
      by (simp add: dataValues_def eventNames_def idValues_def)
  qed
qed

lemma block_effect:
  assumes ne: "list_all (\<lambda>l. l \<noteq> []) block" and dv: "dataValues block \<noteq> []"
    and d0: "data s = []" and e0: "eventName s = None \<or> eventName s = Some []"
  shows "emitted (processLine P [] (processLines P block s)) =
           emitted s @ [MessageEvent (expectedType block) (expectedData block)
                          (last (lastEventId s # idValues block)) (original P (url s))] \<and>
         data (processLine P [] (processLines P block s)) = [] \<and>
         eventName (processLine P [] (processLines P block s)) = None \<and>
         lastEventId (processLine P [] (processLines P block s)) = last (lastEventId s # idValues block) \<and>
         url (processLine P [] (processLines P block s)) = url s"
proof -
  note eff = processLines_effect[OF ne, of P s]
  have dne: "data (processLines P block s) \<noteq> []"
    using eff dv d0 by (cases "dataValues block") auto
  have ty: "(case eventName (processLines P block s) of None \<Rightarrow> ''message''
             | Some n \<Rightarrow> if n = [] then ''message'' else n) = expectedType block"
    using eff e0 by (auto simp: expectedType_def)
  show ?thesis
    using eff dne ty d0 by (simp add: processLine_blank emit_def expectedData_def)
qed

lemma sseAutomaton_eolLine:
  assumes "isEol eol" "list_all notEol l" "\<not> (a \<and> l = [] \<and> eol = [lineFeed])"
  shows "sseAutomaton P a [] (l @ eol @ rest) s =
         sseAutomaton P (eol = [carriageReturn]) [] rest (processLine P l s)"
  using assms(1,3) unfolding sseAutomaton_line[OF assms(2)] isEol_def by auto

lemma wellFormedLine_notEol: "wellFormedLine l \<Longrightarrow> list_all notEol l"
  by (auto simp: wellFormedLine_def list_all_iff notEol_def)

lemma sseAutomaton_lines:
  "list_all (\<lambda>(l, eol). wellFormedLine l \<and> isEol eol) ls \<Longrightarrow>
   sseAutomaton P a [] (concat (map (\<lambda>(l, eol). l @ eol) ls) @ rest) s =
   sseAutomaton P (if ls = [] then a else snd (last ls) = [carriageReturn]) [] rest
     (processLines P (map fst ls) s)"
proof (induction ls arbitrary: s a)
  case Nil
  then show ?case by simp
next
  case (Cons le ls)
  obtain l eol where le: "le = (l, eol)" by (cases le)
  from Cons.prems le have wl: "wellFormedLine l" and e: "isEol eol"
    and r: "list_all (\<lambda>(l, eol). wellFormedLine l \<and> isEol eol) ls" by simp_all
  have ne: "\<not> (a \<and> l = [] \<and> eol = [lineFeed])" using wl by (simp add: wellFormedLine_def)
  have "sseAutomaton P a [] (l @ eol @ concat (map (\<lambda>(l, eol). l @ eol) ls) @ rest) s =
        sseAutomaton P (eol = [carriageReturn]) []
          (concat (map (\<lambda>(l, eol). l @ eol) ls) @ rest) (processLine P l s)"
    by (rule sseAutomaton_eolLine[OF e wellFormedLine_notEol[OF wl] ne])
  then show ?case using Cons.IH[OF r, of "eol = [carriageReturn]"] le by simp
qed

lemma sseAutomaton_block:
  assumes "wellFormedBlock b"
  shows "sseAutomaton P a [] (blockBytes b @ rest) s =
         sseAutomaton P (snd b = [carriageReturn]) [] rest
           (processLine P [] (processLines P (fieldLines b) s))"
proof -
  have wl: "list_all (\<lambda>(l, eol). wellFormedLine l \<and> isEol eol) (fst b)"
    and e: "isEol (snd b)" and dv: "dataValues (fieldLines b) \<noteq> []"
    and amb: "\<not> (snd b = [lineFeed] \<and> snd (last (fst b)) = [carriageReturn])"
    using assms by (simp_all add: wellFormedBlock_def)
  have ne: "fst b \<noteq> []" using dv by (auto simp: dataValues_def fieldLines_def)
  have a': "\<not> ((snd (last (fst b)) = [carriageReturn]) \<and> ([]::byte list) = [] \<and> snd b = [lineFeed])"
    using amb by blast
  have "sseAutomaton P a [] (blockBytes b @ rest) s =
        sseAutomaton P (snd (last (fst b)) = [carriageReturn]) []
          ([] @ snd b @ rest) (processLines P (fieldLines b) s)"
    using sseAutomaton_lines[OF wl, of P a "snd b @ rest" s] ne
    by (simp add: blockBytes_def fieldLines_def)
  also have "\<dots> = sseAutomaton P (snd b = [carriageReturn]) [] rest
                    (processLine P [] (processLines P (fieldLines b) s))"
    by (rule sseAutomaton_eolLine[OF e _ a']) simp
  finally show ?thesis .
qed

lemma sseAutomaton_stream:
  "list_all wellFormedBlock blocks \<Longrightarrow>
   data s = [] \<Longrightarrow> eventName s = None \<or> eventName s = Some [] \<Longrightarrow>
   emitted (snd (snd (sseAutomaton P a [] (streamBytes blocks) s))) =
     emitted s @ expectedEvents P (url s) (lastEventId s) (map fieldLines blocks)"
proof (induction blocks arbitrary: s a)
  case Nil
  then show ?case by (simp add: streamBytes_def)
next
  case (Cons b bs)
  then have wfb: "wellFormedBlock b" and r: "list_all wellFormedBlock bs" by simp_all
  from wfb have wb: "list_all (\<lambda>(l, eol). wellFormedLine l \<and> isEol eol) (fst b)"
    "dataValues (fieldLines b) \<noteq> []"
    by (simp_all add: wellFormedBlock_def)
  have ne: "list_all (\<lambda>l. l \<noteq> []) (fieldLines b)"
    using wb(1) by (auto simp: list_all_iff wellFormedLine_def fieldLines_def)
  let ?s1 = "processLine P [] (processLines P (fieldLines b) s)"
  note be = block_effect[OF ne wb(2) Cons.prems(2,3), of P]
  have "sseAutomaton P a [] (streamBytes (b # bs)) s =
        sseAutomaton P (snd b = [carriageReturn]) [] (streamBytes bs) ?s1"
    using sseAutomaton_block[OF wfb, of P a "streamBytes bs" s]
    by (simp add: streamBytes_def)
  moreover have "emitted (snd (snd (sseAutomaton P (snd b = [carriageReturn]) [] (streamBytes bs) ?s1))) =
      emitted ?s1 @ expectedEvents P (url ?s1) (lastEventId ?s1) (map fieldLines bs)"
    using Cons.IH[OF r, of ?s1 "snd b = [carriageReturn]"] be by simp
  ultimately show ?case using be by simp
qed

lemma tolerated_noCR: "carriageReturn \<notin> set bs \<Longrightarrow> tolerated False a st bs"
  by (induction bs arbitrary: a st) auto

lemma tolerated_noLF: "lineFeed \<notin> set bs \<Longrightarrow> tolerated seen a st bs"
  by (induction bs arbitrary: seen a st) auto

lemma hasBom_length: "hasBom b \<Longrightarrow> 3 \<le> length b"
  by (auto simp: hasBom_iff bom_def)

lemma length_expectedEvents [simp]: "length (expectedEvents P u i blocks) = length blocks"
  by (induction blocks arbitrary: i) auto

section \<open>What the parser leaves alone\<close>

lemma control_parseEventStreamLine [simp]:
  "control (parseEventStreamLine P bf pos fl ll s) = control s"
  by (simp add: control_def parseEventStreamLine_def emit_def Let_def split: option.splits)

lemma control_dtn [simp]: "control (s\<lparr>discardTrailingNewline := d\<rparr>) = control s"
  by (simp add: control_def)

lemma control_lineLoop:
  "control (snd (snd (snd (lineLoop P bf pos sp sfl s)))) = control s"
proof (induction P bf pos sp sfl s rule: lineLoop.induct)
  case (1 P bf pos sp sfl s)
  show ?case
  proof (cases "pos < length bf")
    case False
    then show ?thesis by (subst lineLoop.simps) simp
  next
    case True
    define pos1 where "pos1 = (if discardTrailingNewline s \<and> bf ! pos = lineFeed then pos + 1 else pos)"
    obtain ll fl dtn where sc: "scanLine bf pos1 sp (- 1) sfl False = (ll, fl, dtn)"
      by (cases "scanLine bf pos1 sp (- 1) sfl False") auto
    show ?thesis
    proof (cases "ll < 0")
      case neg: True
      show ?thesis using True sc neg
        by (subst lineLoop.simps) (simp add: pos1_def[symmetric] Let_def)
    next
      case False
      have "control (snd (snd (snd (lineLoop P bf (pos1 + nat (ll + 1)) 0 (- 1)
               (parseEventStreamLine P bf pos1 fl ll (s\<lparr>discardTrailingNewline := dtn\<rparr>)))))) =
            control (parseEventStreamLine P bf pos1 fl ll (s\<lparr>discardTrailingNewline := dtn\<rparr>))"
        using "1.IH"[OF True pos1_def sc[symmetric] refl False] .
      then show ?thesis using True sc False
        by (subst lineLoop.simps) (simp add: pos1_def[symmetric] Let_def)
    qed
  qed
qed

lemma control_onData: "control (snd (onData P chunk (st, s))) = control s"
proof -
  obtain b where "\<exists>pos sp sfl s'. lineLoop P b 0 (startingPos st) (startingFieldLength st) s = (pos, sp, sfl, s')
     \<and> snd (onData P chunk (st, s)) = s'"
    by (cases "lineLoop P (if isFirst st \<and> hasBom (case buf st of None \<Rightarrow> chunk | Some b \<Rightarrow> b @ chunk)
                          then drop (length bom) (case buf st of None \<Rightarrow> chunk | Some b \<Rightarrow> b @ chunk)
                          else (case buf st of None \<Rightarrow> chunk | Some b \<Rightarrow> b @ chunk))
                  0 (startingPos st) (startingFieldLength st) s")
       (auto simp: onData_def Let_def)
  then obtain pos sp sfl s' where
    r: "lineLoop P b 0 (startingPos st) (startingFieldLength st) s = (pos, sp, sfl, s')"
    and o: "snd (onData P chunk (st, s)) = s'" by blast
  show ?thesis using control_lineLoop[of P b 0 "startingPos st" "startingFieldLength st" s] r o by simp
qed

section \<open>The position stays inside the buffer\<close>

lemma scanLine_bound:
  "(0 \<le> ll \<longrightarrow> int pos + ll < int (length bf)) \<Longrightarrow>
   0 \<le> fst (scanLine bf pos i ll fl d) \<Longrightarrow>
   int pos + fst (scanLine bf pos i ll fl d) < int (length bf)"
proof (induction bf pos i ll fl d rule: scanLine.induct)
  case (1 bf pos i ll fl d)
  show ?case
  proof (cases "ll < 0 \<and> i < length bf")
    case False
    then have "scanLine bf pos i ll fl d = (ll, fl, d)"
      by (subst scanLine.simps) (simp only: if_False)
    then show ?thesis using "1.prems" by simp
  next
    case True
    have b: "0 \<le> int i - int pos \<longrightarrow> int pos + (int i - int pos) < int (length bf)"
      using True by simp
    show ?thesis
    proof (cases "bf ! i = colon")
      case c: True
      have e: "scanLine bf pos i ll fl d =
               scanLine bf pos (i + 1) ll (if fl < 0 then int i - int pos else fl) d"
        using True c by (subst scanLine.simps) simp
      show ?thesis using "1.IH"(1)[OF True c "1.prems"(1)] "1.prems"(2) unfolding e by simp
    next
      case nc: False
      show ?thesis
      proof (cases "bf ! i = carriageReturn")
        case cr: True
        have e: "scanLine bf pos i ll fl d = scanLine bf pos (i + 1) (int i - int pos) fl True"
          using True nc cr by (subst scanLine.simps) simp
        show ?thesis using "1.IH"(2)[OF True nc cr b] "1.prems"(2) unfolding e by simp
      next
        case ncr: False
        show ?thesis
        proof (cases "bf ! i = lineFeed")
          case lf: True
          have e: "scanLine bf pos i ll fl d = scanLine bf pos (i + 1) (int i - int pos) fl d"
            using True nc ncr lf by (subst scanLine.simps) simp
          show ?thesis using "1.IH"(3)[OF True nc ncr lf b] "1.prems"(2) unfolding e by simp
        next
          case nlf: False
          have e: "scanLine bf pos i ll fl d = scanLine bf pos (i + 1) ll fl d"
            using True nc ncr nlf by (subst scanLine.simps) simp
          show ?thesis using "1.IH"(4)[OF True nc ncr nlf "1.prems"(1)] "1.prems"(2) unfolding e by simp
        qed
      qed
    qed
  qed
qed

lemma lineLoop_pos_le:
  "pos \<le> length bf \<Longrightarrow> fst (lineLoop P bf pos sp sfl s) \<le> length bf"
proof (induction P bf pos sp sfl s rule: lineLoop.induct)
  case (1 P bf pos sp sfl s)
  show ?case
  proof (cases "pos < length bf")
    case False
    then show ?thesis using "1.prems" by (subst lineLoop.simps) simp
  next
    case True
    define pos1 where "pos1 = (if discardTrailingNewline s \<and> bf ! pos = lineFeed then pos + 1 else pos)"
    have p1: "pos1 \<le> length bf" using True by (simp add: pos1_def)
    obtain ll fl dtn where sc: "scanLine bf pos1 sp (- 1) sfl False = (ll, fl, dtn)"
      by (cases "scanLine bf pos1 sp (- 1) sfl False") auto
    show ?thesis
    proof (cases "ll < 0")
      case neg: True
      show ?thesis using True sc neg p1
        by (subst lineLoop.simps) (simp add: pos1_def[symmetric] Let_def)
    next
      case False
      have "int pos1 + ll < int (length bf)"
        using scanLine_bound[of "- 1" pos1 bf sp sfl False] sc False by simp
      then have le: "pos1 + nat (ll + 1) \<le> length bf" using False by simp
      show ?thesis
        using "1.IH"[OF True pos1_def sc[symmetric] refl False le] True sc False
        by (subst lineLoop.simps) (simp add: pos1_def[symmetric] Let_def)
    qed
  qed
qed

section \<open>The tolerated streams, in closed form\<close>

text \<open>
  A stream is tolerated exactly when no carriage return stands before two line feeds in
  a row. So are the streams without a carriage return, those without a line feed, and
  those in which every line feed follows a carriage return.
\<close>

lemma all_nat_Suc: "(\<forall>i. Q i) \<longleftrightarrow> Q 0 \<and> (\<forall>i. Q (Suc i))"
  by (metis not0_implies_Suc)

lemma tolerated_char:
  "tolerated seen a st bs \<longleftrightarrow>
     (bs \<noteq> [] \<and> hd bs = lineFeed \<longrightarrow> \<not> (seen \<and> \<not> a \<and> st)) \<and>
     (\<forall>i. Suc i < length bs \<and> bs ! i = lineFeed \<and> bs ! Suc i = lineFeed \<longrightarrow>
          \<not> seen \<and> carriageReturn \<notin> set (take i bs))"
proof (induction bs arbitrary: seen a st)
  case Nil
  then show ?case by simp
next
  case (Cons b bs)
  have hd0: "bs \<noteq> [] \<Longrightarrow> hd bs = bs ! 0" by (simp add: hd_conv_nth)
  show ?case
  proof (cases "b = lineFeed")
    case True
    show ?thesis
      using True Cons.IH[of seen False True] hd0
      by (subst all_nat_Suc) (cases "bs = []", auto)
  next
    case False
    note nlf = False
    show ?thesis
    proof (cases "b = carriageReturn")
      case True
      show ?thesis
        using True nlf Cons.IH[of True True True]
        by (subst all_nat_Suc) auto
    next
      case False
      show ?thesis
        using False nlf Cons.IH[of seen False False]
        by (subst all_nat_Suc) auto
    qed
  qed
qed

lemma tolerated_iff:
  "tolerated False False True bs \<longleftrightarrow>
     (\<forall>i. Suc i < length bs \<and> bs ! i = lineFeed \<and> bs ! Suc i = lineFeed \<longrightarrow>
          carriageReturn \<notin> set (take i bs))"
  by (subst tolerated_char) simp

lemma tolerated_after_CR:
  "(\<forall>i. Suc i < length bs \<and> bs ! Suc i = lineFeed \<longrightarrow> bs ! i = carriageReturn) \<Longrightarrow>
   tolerated False False True bs"
  by (auto simp: tolerated_iff)

section \<open>The configuration and the stored id\<close>

lemma connect_sel [simp]:
  "readyState (connect P s) = readyState s"
  "url (connect P s) = url s"
  "reconnectUrl (connect P s) = reconnectUrl s"
  "reconnectInterval (connect P s) = reconnectInterval s"
  "lastEventId (connect P s) = lastEventId s"
  "eventSourceInitDict (connect P s) = eventSourceInitDict s"
  "timers (connect P s) = timers s"
  "emitted (connect P s) = emitted s"
  "connectionInProgress (connect P s) = connectionInProgress s"
  "discardTrailingNewline (connect P s) = discardTrailingNewline s"
  "data (connect P s) = data s"
  "eventName (connect P s) = eventName s"
  "exchanges (connect P s) = exchanges s @ [newExchange]"
  "length (requests (connect P s)) = Suc (length (requests s))"
  "butlast (requests (connect P s)) = requests s"
  by (simp_all add: connect_def Let_def)

lemma connect_target:
  "target (last (requests (connect P s))) = targetOf P (eventSourceInitDict s) (url s)"
  by (simp add: connect_def targetOf_def Let_def split: option.splits)


lemma onConnectionClosed_sel [simp]:
  "eventSourceInitDict (onConnectionClosed m s) = eventSourceInitDict s"
  "requests (onConnectionClosed m s) = requests s"
  "exchanges (onConnectionClosed m s) = exchanges s"
  "lastEventId (onConnectionClosed m s) = lastEventId s"
  "reconnectInterval (onConnectionClosed m s) = reconnectInterval s"
  by (simp_all add: onConnectionClosed_def emit_def Let_def split: option.splits)

lemma close_sel [simp]:
  "eventSourceInitDict (close s) = eventSourceInitDict s"
  "requests (close s) = requests s"
  "readyState (close s) = CLOSED"
  "lastEventId (close s) = lastEventId s"
  "reconnectUrl (close s) = reconnectUrl s"
  "url (close s) = url s"
  "timers (close s) = timers s"
  by (simp_all add: close_def)

lemma onResponse_config [simp]:
  "eventSourceInitDict (onResponse P k st m l s) = eventSourceInitDict s"
  by (simp add: onResponse_def emit_def Let_def split: option.splits)

lemma reconnectTimer_config [simp]:
  "eventSourceInitDict (reconnectTimer P s) = eventSourceInitDict s"
  by (simp add: reconnectTimer_def)

lemma onData_sel:
  "readyState (snd (onData P chunk (st, s))) = readyState s"
  "url (snd (onData P chunk (st, s))) = url s"
  "reconnectUrl (snd (onData P chunk (st, s))) = reconnectUrl s"
  "eventSourceInitDict (snd (onData P chunk (st, s))) = eventSourceInitDict s"
  "requests (snd (onData P chunk (st, s))) = requests s"
  "timers (snd (onData P chunk (st, s))) = timers s"
  "exchanges (snd (onData P chunk (st, s))) = exchanges s"
  using control_onData[of P chunk st s] by (simp_all add: control_def)

lemma step_Data:
  "step P (Data k chunk) s =
     (if k < length (exchanges s)
      then (case reader (exchanges s ! k) of
              None \<Rightarrow> s
            | Some st \<Rightarrow>
                (snd (onData P chunk (st, s)))
                  \<lparr>exchanges := (exchanges s)
                     [k := (exchanges s ! k)\<lparr>reader := Some (fst (onData P chunk (st, s)))\<rparr>]\<rparr>)
      else s)"
proof (cases "k < length (exchanges s)")
  case False
  then show ?thesis by simp
next
  case True
  show ?thesis
  proof (cases "reader (exchanges s ! k)")
    case None
    then show ?thesis using True by simp
  next
    case (Some st)
    obtain st' s' where o: "onData P chunk (st, s) = (st', s')"
      by (cases "onData P chunk (st, s)") auto
    have "exchanges s' = exchanges s" using onData_sel(7)[of P chunk st s] o by simp
    then show ?thesis using True Some o by simp
  qed
qed

lemma step_Data_sel:
  "readyState (step P (Data k chunk) s) = readyState s"
  "url (step P (Data k chunk) s) = url s"
  "reconnectUrl (step P (Data k chunk) s) = reconnectUrl s"
  "eventSourceInitDict (step P (Data k chunk) s) = eventSourceInitDict s"
  "requests (step P (Data k chunk) s) = requests s"
  "timers (step P (Data k chunk) s) = timers s"
  using onData_sel[of P chunk _ s]
  by (simp_all add: step_Data del: step.simps split: option.splits)

lemma step_config [simp]: "eventSourceInitDict (step P e s) = eventSourceInitDict s"
proof (cases e)
  case (Data k chunk)
  then show ?thesis using step_Data_sel(4)[of P k chunk s] by (simp del: step.simps)
qed simp_all

lemma run_config [simp]: "eventSourceInitDict (run P es s) = eventSourceInitDict s"
  by (induction es arbitrary: s) simp_all




lemma processLines_config [simp]:
  "eventSourceInitDict (processLine P line s) = eventSourceInitDict s"
  "eventSourceInitDict (processLines P lines s) = eventSourceInitDict s"
proof -
  show a: "\<And>line s. eventSourceInitDict (processLine P line s) = eventSourceInitDict s"
    using control_parseEventStreamLine by (simp add: processLine_def control_def)
  show "eventSourceInitDict (processLines P lines s) = eventSourceInitDict s"
    by (induction lines arbitrary: s) (simp_all add: a)
qed


section \<open>Disconnects and the closed state\<close>

lemma onConnectionClosed_closed: "readyState s = CLOSED \<Longrightarrow> onConnectionClosed m s = s"
  by (simp add: onConnectionClosed_def)

lemma onConnectionClosed_open:
  "readyState s \<noteq> CLOSED \<Longrightarrow> readyState (onConnectionClosed m s) = CONNECTING"
  by (simp add: onConnectionClosed_def emit_def Let_def split: option.splits)

lemma onConnectionClosed_timers:
  "readyState s \<noteq> CLOSED \<Longrightarrow>
   timers (onConnectionClosed m s) = timers s @ [reconnectInterval s]"
  by (simp add: onConnectionClosed_def emit_def Let_def split: option.splits)

lemma onConnectionClosed_reverts:
  "readyState s \<noteq> CLOSED \<Longrightarrow> reconnectUrl s = Some u \<Longrightarrow> u \<noteq> [] \<Longrightarrow>
   url (onConnectionClosed m s) = u \<and> reconnectUrl (onConnectionClosed m s) = None"
  by (simp add: onConnectionClosed_def emit_def Let_def)

lemma run_append: "run P (xs @ ys) s = run P ys (run P xs s)"
  by (induction xs arbitrary: s) simp_all

lemma disconnect_shape:
  assumes "disconnects d s"
  shows "\<exists>m s'. step P d s = onConnectionClosed m s' \<and> readyState s' = readyState s \<and>
           reconnectUrl s' = reconnectUrl s \<and> url s' = url s \<and> timers s' = timers s \<and>
           reconnectInterval s' = reconnectInterval s"
proof (cases d)
  case (Response k st m l)
  let ?s' = "emit (ErrorEvent (Some st) (Some m))
               (s\<lparr>exchanges := (exchanges s)[k := (exchanges s ! k)\<lparr>answered := True\<rparr>],
                  connectionInProgress := False\<rparr>)"
  have "step P d s = onConnectionClosed None ?s'"
    using Response assms by (auto simp: onResponse_def Let_def)
  moreover have "readyState ?s' = readyState s" "reconnectUrl ?s' = reconnectUrl s"
    "url ?s' = url s" "timers ?s' = timers s" "reconnectInterval ?s' = reconnectInterval s"
    by (simp_all add: emit_def)
  ultimately show ?thesis by blast
next
  case (End k)
  let ?s' = "s\<lparr>exchanges := (exchanges s)[k := (exchanges s ! k)\<lparr>endListeners := False\<rparr>]\<rparr>"
  have "step P d s = onConnectionClosed None ?s'" using End assms by simp
  moreover have "readyState ?s' = readyState s" "reconnectUrl ?s' = reconnectUrl s"
    "url ?s' = url s" "timers ?s' = timers s" "reconnectInterval ?s' = reconnectInterval s"
    by simp_all
  ultimately show ?thesis by blast
next
  case (ResClose k)
  let ?s' = "s\<lparr>exchanges := (exchanges s)[k := (exchanges s ! k)\<lparr>endListeners := False\<rparr>]\<rparr>"
  have "step P d s = onConnectionClosed None ?s'" using ResClose assms by simp
  moreover have "readyState ?s' = readyState s" "reconnectUrl ?s' = reconnectUrl s"
    "url ?s' = url s" "timers ?s' = timers s" "reconnectInterval ?s' = reconnectInterval s"
    by simp_all
  ultimately show ?thesis by blast
next
  case (ReqError k m)
  let ?s' = "s\<lparr>connectionInProgress := False\<rparr>"
  have "step P d s = onConnectionClosed (Some m) ?s'" using ReqError assms by simp
  moreover have "readyState ?s' = readyState s" "reconnectUrl ?s' = reconnectUrl s"
    "url ?s' = url s" "timers ?s' = timers s" "reconnectInterval ?s' = reconnectInterval s"
    by simp_all
  ultimately show ?thesis by blast
qed (use assms in simp_all)

lemma disconnects_open: "disconnects d s \<Longrightarrow> readyState s \<noteq> CLOSED"
  by (cases d) simp_all

lemma disconnect_reverts:
  assumes "disconnects d s" "reconnectUrl s = Some u" "u \<noteq> []"
  shows "url (step P d s) = u \<and> reconnectUrl (step P d s) = None"
proof -
  from disconnect_shape[OF assms(1), of P] obtain m s' where
    st: "step P d s = onConnectionClosed m s'" and r: "readyState s' = readyState s"
    and u: "reconnectUrl s' = reconnectUrl s" by blast
  have "readyState s' \<noteq> CLOSED" using r disconnects_open[OF assms(1)] by simp
  moreover have "reconnectUrl s' = Some u" using u assms(2) by simp
  ultimately show ?thesis using onConnectionClosed_reverts[of s' u m] assms(3) st by simp
qed

lemma disconnect_timer:
  assumes "disconnects d s"
  shows "timers (step P d s) = timers s @ [reconnectInterval s]"
proof -
  from disconnect_shape[OF assms(1), of P] obtain m s' where
    st: "step P d s = onConnectionClosed m s'" and r: "readyState s' = readyState s"
    and t: "timers s' = timers s" "reconnectInterval s' = reconnectInterval s" by blast
  have "readyState s' \<noteq> CLOSED" using r disconnects_open[OF assms(1)] by simp
  then show ?thesis using onConnectionClosed_timers[of s' m] st t by simp
qed

lemma quiet_step:
  assumes "\<not> disconnects e s" "\<not> temporaryRedirect e s"
  shows "reconnectUrl (step P e s) = reconnectUrl s"
proof (cases e)
  case (Response k st m l)
  then show ?thesis using assms
    by (auto simp: onResponse_def Let_def emit_def onConnectionClosed_closed close_def
          split: option.splits)
next
  case (Data k chunk)
  then show ?thesis using step_Data_sel(3)[of P k chunk s] by (simp del: step.simps)
next
  case (Timeout j)
  then show ?thesis by (simp add: reconnectTimer_def)
qed (use assms in \<open>auto simp: onConnectionClosed_closed close_def\<close>)

lemma undisturbed_reconnectUrl:
  "undisturbed P es s \<Longrightarrow> reconnectUrl (run P es s) = reconnectUrl s"
  by (induction es arbitrary: s) (simp_all add: quiet_step)




lemma disconnects_iff_timer:
  "disconnects e s \<longleftrightarrow> (\<exists>x. timers (step P e s) = timers s @ [x])"
proof
  assume "disconnects e s"
  then show "\<exists>x. timers (step P e s) = timers s @ [x]" using disconnect_timer by blast
next
  assume a: "\<exists>x. timers (step P e s) = timers s @ [x]"
  then have len: "length (timers (step P e s)) = Suc (length (timers s))" by auto
  show "disconnects e s"
  proof (rule ccontr)
    assume n: "\<not> disconnects e s"
    have "length (timers (step P e s)) \<le> length (timers s)"
    proof (cases e)
      case (Response k st m l)
      then show ?thesis using n
        by (auto simp: onResponse_def Let_def emit_def onConnectionClosed_closed close_def
              split: option.splits)
    next
      case (Data k chunk)
      then show ?thesis using step_Data_sel(6)[of P k chunk s] by (simp del: step.simps)
    next
      case (Timeout j)
      then show ?thesis by (auto simp: reconnectTimer_def)
    qed (use n in \<open>auto simp: onConnectionClosed_closed close_def\<close>)
    then show False using len by simp
  qed
qed


section \<open>The request options and the retry field\<close>

lemma rejectUnauthorized_resolution:
  "properties (last (requests (connect P s))) ''rejectUnauthorized'' =
     (case eventSourceInitDict s of
        None \<Rightarrow> Some (JBool True)
      | Some d \<Rightarrow>
          (case (case https d of Some hs \<Rightarrow> hs ''rejectUnauthorized'' | None \<Rightarrow> None) of
             Some v \<Rightarrow> if v \<noteq> JUndefined then Some v
                       else Some (JBool (truthy (rejectUnauthorized d)))
           | None \<Rightarrow> Some (JBool (truthy (rejectUnauthorized d)))))"
  by (auto simp: connect_def Let_def mergeHttps_def httpsOptions_def split: option.splits)








text \<open>What \<open>parseInt\<close> makes of some values of a \<open>retry\<close> field.\<close>

lemma retry_examples:
  "reconnectInterval (processLine testPlatform ''retry: 9007199254740993'' testSession) =
     Finite 9007199254740992 \<and>
   reconnectInterval (processLine testPlatform (''retry:'' @ [CHR 0xC2, CHR 0xA0] @ ''12'') testSession) =
     Finite 12 \<and>
   reconnectInterval (processLine testPlatform ''retry: 12abc'' testSession) = Finite 12 \<and>
   reconnectInterval (processLine testPlatform ''retry: abc'' testSession) = Finite 1000 \<and>
   reconnectInterval (processLine testPlatform ''retry: -0'' testSession) = NegativeZero"
  by code_simp


section \<open>Carriage returns\<close>

text \<open>
  The scan of a line starts at \<open>startingPos\<close>, which is 0 after a complete line, and
  reads \<open>buf[i]\<close> from there, not from \<open>pos\<close>: it runs again over the lines already
  handled and sets \<open>discardTrailingNewline\<close> at each carriage return it meets. A line feed
  that starts a later line then counts as the second half of a CRLF and is skipped. With
  line feeds only nothing is set; a line feed after a carriage return is skipped rightly;
  a blank line ended by a line feed alone, after an earlier carriage return, is lost or
  kept according to where the chunks are cut. The streams of the first two examples are
  not \<open>tolerated\<close>.
\<close>

lemma carriage_return_swallows_blank_line:
  "emitted (snd (feed testPlatform
     [''data: a'' @ [carriageReturn] @ ''data: b'' @ [lineFeed, lineFeed]]
     (newStream, testSession))) = []"
  by code_simp

lemma carriage_return_depends_on_chunks:
  "emitted (snd (feed testPlatform
     [''x'' @ [carriageReturn] @ ''data: a'' @ [lineFeed, lineFeed]]
     (newStream, testSession))) = [] \<and>
   emitted (snd (feed testPlatform
     [''x'' @ [carriageReturn], ''data: a'' @ [lineFeed, lineFeed]]
     (newStream, testSession))) = [MessageEvent ''message'' ''a'' [] ''http://example.org/events'']"
  by code_simp

lemma crlf_stream_example:
  "emitted (snd (feed testPlatform
     [''data: a'' @ [carriageReturn, lineFeed] @ ''data: b'' @ [carriageReturn, lineFeed]
        @ [carriageReturn, lineFeed]]
     (newStream, testSession))) =
   [MessageEvent ''message'' (''a'' @ [CHR 0x0A] @ ''b'') [] ''http://example.org/events'']"
  by code_simp

lemma carriage_return_examples_not_tolerated:
  "\<not> tolerated False False True (''data: a'' @ [carriageReturn] @ ''data: b'' @ [lineFeed, lineFeed]) \<and>
   \<not> tolerated False False True (''x'' @ [carriageReturn] @ ''data: a'' @ [lineFeed, lineFeed])"
  by code_simp

section \<open>The claims\<close>

subsection \<open>C1: the events of a well-formed stream\<close>

text \<open>
  A stream of blank-line-terminated events is given by its blocks: \<open>streamBytes\<close> writes
  every field line of a block with its line end, and the blank line that closes the block
  with its own. The \<open>data:\<close>, \<open>event:\<close> and \<open>id:\<close> lines of a block are those with a
  colon after that name (\<open>isField\<close>); the value of a line starts after the colon, or
  after the one space that follows it (\<open>fieldValue\<close>).

  C1 as stated fails: a blank line dispatches only when the data buffer is not empty
  (\<open>if (data.length > 0)\<close>), so an event without a \<open>data:\<close> line emits nothing. The
  stream below holds one blank-line-terminated event and no event is emitted.
\<close>

theorem event_without_data_counterexample:
  "length (emitted (snd (feed testPlatform
     [streamBytes [([(''event: foo'', [lineFeed])], [lineFeed])]]
     (newStream, testSession)))) \<noteq> length [([(''event: foo'', [lineFeed])], [lineFeed])]"
  by code_simp

text \<open>
  C1, amended: for every stream of N blank-line-terminated events, each line ending
  with a line feed, a carriage return or both, each event holding at least one \<open>data:\<close>
  line, fed to a fresh parser after an optional byte-order mark, in any chunks of which
  the first holds the whole mark, exactly N events are emitted, in order. Each has for
  data the values of its \<open>data:\<close> lines, each followed by a newline, without the last
  newline; for type the value of its last \<open>event:\<close> line, or \<open>message\<close> when it has none
  or that value is empty; and for \<open>lastEventId\<close> the value of the last \<open>id:\<close> line read
  so far. Two kinds of streams are left aside: those with a line that is the bare name
  \<open>data\<close>, \<open>event\<close> or \<open>id\<close>, without a colon (C3), and those that are not
  \<open>tolerated\<close>, where two line feeds in a row follow a carriage return.
\<close>

theorem events_of_wellformed_stream:
  assumes wf: "list_all wellFormedBlock blocks"
    and tol: "tolerated False False True (streamBytes blocks)"
    and pre: "pre = bom \<or> (pre = [] \<and> \<not> hasBom (streamBytes blocks))"
    and chunks: "concat chunks = pre @ streamBytes blocks"
    and first: "pre = bom \<longrightarrow> chunks \<noteq> [] \<and> 3 \<le> length (hd chunks)"
    and fresh: "\<not> discardTrailingNewline s" "data s = []" "eventName s = None \<or> eventName s = Some []"
  shows "emitted (snd (feed P chunks (newStream, s))) =
           emitted s @ expectedEvents P (url s) (lastEventId s) (map fieldLines blocks) \<and>
         length (emitted (snd (feed P chunks (newStream, s)))) =
           length (emitted s) + length blocks"
proof -
  have "tolerated False False True (pre @ streamBytes blocks)"
    using tol tolerated_bom[of False True "streamBytes blocks" False True] pre by auto
  then have tol': "tolerated False False True (concat chunks)" by (simp only: chunks)
  have "hasBom (pre @ streamBytes blocks) \<longrightarrow> chunks \<noteq> [] \<and> 3 \<le> length (hd chunks)"
    using pre first by auto
  then have bm: "hasBom (concat chunks) \<longrightarrow> chunks \<noteq> [] \<and> 3 \<le> length (hd chunks)"
    by (simp only: chunks)
  have "stripBom True (pre @ streamBytes blocks) = streamBytes blocks"
    using pre by (auto simp: stripBom_def hasBom_iff bom_def)
  then have strip: "stripBom True (concat chunks) = streamBytes blocks"
    by (simp only: chunks)
  have "observable (snd (feed P chunks (newStream, s))) =
        snd (snd (sseAutomaton P False [] (streamBytes blocks) (observable s)))"
    using chunking_lemma[OF fresh(1) tol' bm, of P] by (simp only: strip)
  then have "emitted (observable (snd (feed P chunks (newStream, s)))) =
        emitted (observable s) @
        expectedEvents P (url (observable s)) (lastEventId (observable s)) (map fieldLines blocks)"
    using sseAutomaton_stream[OF wf, of "observable s" P False] fresh(2,3)
    by (simp add: observable_def)
  then show ?thesis by (simp add: observable_def)
qed

theorem events_of_wellformed_stream_witness:
  "list_all wellFormedBlock
     [([(''event: foo'', [lineFeed]), (''data: a'', [lineFeed]), (''data:b'', [lineFeed])],
       [lineFeed]),
      ([('': comment'', [carriageReturn]), (''id: 7'', [carriageReturn, lineFeed]),
        (''data: x'', [carriageReturn, lineFeed])], [carriageReturn])] \<and>
   tolerated False False True (streamBytes
     [([(''event: foo'', [lineFeed]), (''data: a'', [lineFeed]), (''data:b'', [lineFeed])],
       [lineFeed]),
      ([('': comment'', [carriageReturn]), (''id: 7'', [carriageReturn, lineFeed]),
        (''data: x'', [carriageReturn, lineFeed])], [carriageReturn])]) \<and>
   bom = bom \<and>
   concat [bom @ ''event: foo'' @ [lineFeed] @ ''da'',
           ''ta: a'' @ [lineFeed] @ ''data:b'' @ [lineFeed, lineFeed] @ '': comment''
             @ [carriageReturn] @ ''id: 7'' @ [carriageReturn],
           [lineFeed] @ ''data: x'' @ [carriageReturn, lineFeed, carriageReturn]] =
     bom @ streamBytes
       [([(''event: foo'', [lineFeed]), (''data: a'', [lineFeed]), (''data:b'', [lineFeed])],
         [lineFeed]),
        ([('': comment'', [carriageReturn]), (''id: 7'', [carriageReturn, lineFeed]),
          (''data: x'', [carriageReturn, lineFeed])], [carriageReturn])] \<and>
   3 \<le> length (hd [bom @ ''event: foo'' @ [lineFeed] @ ''da'',
           ''ta: a'' @ [lineFeed] @ ''data:b'' @ [lineFeed, lineFeed] @ '': comment''
             @ [carriageReturn] @ ''id: 7'' @ [carriageReturn],
           [lineFeed] @ ''data: x'' @ [carriageReturn, lineFeed, carriageReturn]]) \<and>
   \<not> discardTrailingNewline testSession \<and> data testSession = [] \<and>
   eventName testSession = Some [] \<and>
   emitted (snd (feed testPlatform
     [bom @ ''event: foo'' @ [lineFeed] @ ''da'',
      ''ta: a'' @ [lineFeed] @ ''data:b'' @ [lineFeed, lineFeed] @ '': comment''
        @ [carriageReturn] @ ''id: 7'' @ [carriageReturn],
      [lineFeed] @ ''data: x'' @ [carriageReturn, lineFeed, carriageReturn]]
     (newStream, testSession))) =
     [MessageEvent ''foo'' (''a'' @ [CHR 0x0A] @ ''b'') [] ''http://example.org/events'',
      MessageEvent ''message'' ''x'' ''7'' ''http://example.org/events'']"
proof -
  have h1: "list_all wellFormedBlock
     [([(''event: foo'', [lineFeed]), (''data: a'', [lineFeed]), (''data:b'', [lineFeed])],
       [lineFeed]),
      ([('': comment'', [carriageReturn]), (''id: 7'', [carriageReturn, lineFeed]),
        (''data: x'', [carriageReturn, lineFeed])], [carriageReturn])]"
    by code_simp
  have ht: "tolerated False False True (streamBytes
     [([(''event: foo'', [lineFeed]), (''data: a'', [lineFeed]), (''data:b'', [lineFeed])],
       [lineFeed]),
      ([('': comment'', [carriageReturn]), (''id: 7'', [carriageReturn, lineFeed]),
        (''data: x'', [carriageReturn, lineFeed])], [carriageReturn])])"
    by code_simp
  have hc: "concat [bom @ ''event: foo'' @ [lineFeed] @ ''da'',
           ''ta: a'' @ [lineFeed] @ ''data:b'' @ [lineFeed, lineFeed] @ '': comment''
             @ [carriageReturn] @ ''id: 7'' @ [carriageReturn],
           [lineFeed] @ ''data: x'' @ [carriageReturn, lineFeed, carriageReturn]] =
     bom @ streamBytes
       [([(''event: foo'', [lineFeed]), (''data: a'', [lineFeed]), (''data:b'', [lineFeed])],
         [lineFeed]),
        ([('': comment'', [carriageReturn]), (''id: 7'', [carriageReturn, lineFeed]),
          (''data: x'', [carriageReturn, lineFeed])], [carriageReturn])]"
    by code_simp
  have hf: "3 \<le> length (hd [bom @ ''event: foo'' @ [lineFeed] @ ''da'',
           ''ta: a'' @ [lineFeed] @ ''data:b'' @ [lineFeed, lineFeed] @ '': comment''
             @ [carriageReturn] @ ''id: 7'' @ [carriageReturn],
           [lineFeed] @ ''data: x'' @ [carriageReturn, lineFeed, carriageReturn]])"
    by code_simp
  have h2: "\<not> discardTrailingNewline testSession" by code_simp
  have h3: "data testSession = []" by code_simp
  have h4: "eventName testSession = Some []" by code_simp
  have e: "emitted testSession @ expectedEvents testPlatform (url testSession)
       (lastEventId testSession)
       (map fieldLines
         [([(''event: foo'', [lineFeed]), (''data: a'', [lineFeed]), (''data:b'', [lineFeed])],
           [lineFeed]),
          ([('': comment'', [carriageReturn]), (''id: 7'', [carriageReturn, lineFeed]),
            (''data: x'', [carriageReturn, lineFeed])], [carriageReturn])]) =
     [MessageEvent ''foo'' (''a'' @ [CHR 0x0A] @ ''b'') [] ''http://example.org/events'',
      MessageEvent ''message'' ''x'' ''7'' ''http://example.org/events'']"
    by code_simp
  have "emitted (snd (feed testPlatform
     [bom @ ''event: foo'' @ [lineFeed] @ ''da'',
      ''ta: a'' @ [lineFeed] @ ''data:b'' @ [lineFeed, lineFeed] @ '': comment''
        @ [carriageReturn] @ ''id: 7'' @ [carriageReturn],
      [lineFeed] @ ''data: x'' @ [carriageReturn, lineFeed, carriageReturn]]
     (newStream, testSession))) =
     emitted testSession @ expectedEvents testPlatform (url testSession)
       (lastEventId testSession)
       (map fieldLines
         [([(''event: foo'', [lineFeed]), (''data: a'', [lineFeed]), (''data:b'', [lineFeed])],
           [lineFeed]),
          ([('': comment'', [carriageReturn]), (''id: 7'', [carriageReturn, lineFeed]),
            (''data: x'', [carriageReturn, lineFeed])], [carriageReturn])])"
    using events_of_wellformed_stream[OF h1 ht _ hc _ h2 h3, of testPlatform] hf h4 by simp
  then show ?thesis using h1 ht hc hf h2 h3 h4 e by simp
qed
subsection \<open>C2: chunk boundaries\<close>

text \<open>
  C2 as stated fails: the byte-order mark is looked for in the first chunk only
  (\<open>isFirst && hasBom(buf)\<close>), so a first chunk that ends inside the mark leaves the mark
  in the stream. Fed whole, the stream below yields the event \<open>x\<close>; split after the first
  byte of the mark, it yields no event.
\<close>

theorem chunk_split_inside_bom_counterexample:
  "emitted (snd (feed testPlatform
     [[CHR 0xEF], [CHR 0xBB, CHR 0xBF] @ ''data: x'' @ [lineFeed, lineFeed]]
     (newStream, testSession)))
   \<noteq> emitted (snd (feed testPlatform
     [concat [[CHR 0xEF], [CHR 0xBB, CHR 0xBF] @ ''data: x'' @ [lineFeed, lineFeed]]]
     (newStream, testSession)))"
  by code_simp

text \<open>
  C2, amended: for every byte stream in which two line feeds in a row occur only before
  the first carriage return (\<open>tolerated\<close>: streams of lines ended by line feeds alone, by
  carriage returns alone, by CRLF alone, and more), and every way of cutting it into
  chunks in which the first chunk holds at least three bytes whenever the stream begins
  with a byte-order mark, a fresh response fed the chunks one after another emits the
  same sequence of events as one fed the whole stream at once, and leaves the same
  session but for the flag \<open>discardTrailingNewline\<close>. Cuts inside a line, between a
  carriage return and its line feed, and empty chunks are included.
\<close>

theorem chunk_boundary_invariance:
  assumes "\<not> discardTrailingNewline s"
    and "tolerated False False True (concat chunks)"
    and "hasBom (concat chunks) \<longrightarrow> chunks \<noteq> [] \<and> 3 \<le> length (hd chunks)"
  shows "emitted (snd (feed P chunks (newStream, s))) =
           emitted (snd (feed P [concat chunks] (newStream, s))) \<and>
         observable (snd (feed P chunks (newStream, s))) =
           observable (snd (feed P [concat chunks] (newStream, s)))"
proof -
  have "observable (snd (feed P [concat chunks] (newStream, s))) =
        snd (snd (sseAutomaton P False [] (stripBom True (concat [concat chunks])) (observable s)))"
    using assms by (intro chunking_lemma) (auto simp: hasBom_iff bom_def)
  then have eq: "observable (snd (feed P chunks (newStream, s))) =
                 observable (snd (feed P [concat chunks] (newStream, s)))"
    using chunking_lemma[OF assms, of P] by simp
  from arg_cong[OF eq, of emitted] show ?thesis using eq by (simp add: observable_def)
qed

theorem chunk_boundary_invariance_witness:
  "\<not> discardTrailingNewline testSession \<and>
   tolerated False False True
     (concat [bom @ ''da'', ''ta: x'' @ [carriageReturn], [lineFeed, carriageReturn], [],
              [lineFeed]]) \<and>
   hasBom (concat [bom @ ''da'', ''ta: x'' @ [carriageReturn], [lineFeed, carriageReturn], [],
                   [lineFeed]]) \<and>
   [bom @ ''da'', ''ta: x'' @ [carriageReturn], [lineFeed, carriageReturn], [], [lineFeed]]
     \<noteq> [] \<and>
   3 \<le> length (hd [bom @ ''da'', ''ta: x'' @ [carriageReturn], [lineFeed, carriageReturn], [],
                    [lineFeed]]) \<and>
   emitted (snd (feed testPlatform
     [bom @ ''da'', ''ta: x'' @ [carriageReturn], [lineFeed, carriageReturn], [], [lineFeed]]
     (newStream, testSession))) =
   emitted (snd (feed testPlatform
     [concat [bom @ ''da'', ''ta: x'' @ [carriageReturn], [lineFeed, carriageReturn], [],
              [lineFeed]]]
     (newStream, testSession)))"
proof -
  have h1: "\<not> discardTrailingNewline testSession" by code_simp
  have h2: "tolerated False False True
     (concat [bom @ ''da'', ''ta: x'' @ [carriageReturn], [lineFeed, carriageReturn], [],
              [lineFeed]])"
    by code_simp
  have h3: "hasBom (concat [bom @ ''da'', ''ta: x'' @ [carriageReturn],
                            [lineFeed, carriageReturn], [], [lineFeed]])"
    by code_simp
  have h4: "[bom @ ''da'', ''ta: x'' @ [carriageReturn], [lineFeed, carriageReturn], [],
             [lineFeed]] \<noteq> [] \<and>
      3 \<le> length (hd [bom @ ''da'', ''ta: x'' @ [carriageReturn], [lineFeed, carriageReturn],
                       [], [lineFeed]])"
    by code_simp
  show ?thesis using chunk_boundary_invariance[OF h1 h2] h1 h2 h3 h4 by blast
qed
subsection \<open>C3: a line without a colon\<close>

text \<open>
  C3: a complete line without a colon is a field name with an empty value. The source
  prepares for it (\<open>noValue = fieldLength < 0\<close>, \<open>step = lineLength\<close>) inside a branch
  taken only when \<open>fieldLength > 0\<close>, so such a line is dropped: the line \<open>data\<close>
  leaves the data buffer empty, and the blank line after it dispatches nothing.
\<close>

theorem line_without_colon_is_dropped:
  "data (snd (feed testPlatform [''data'' @ [lineFeed]] (newStream, testSession))) = [] \<and>
   emitted (snd (feed testPlatform [''data'' @ [lineFeed, lineFeed]] (newStream, testSession)))
     = emitted testSession"
  by code_simp

subsection \<open>C4: the Last-Event-ID header\<close>


subsection \<open>C5: a temporary redirect\<close>

text \<open>
  C5 as stated fails: there is one variable \<open>reconnectUrl\<close>, and each response \<open>307\<close>
  with a \<open>Location\<close> overwrites it with the url of that moment. After a redirect to
  \<open>/b\<close> answered by a second redirect to \<open>/c\<close>, the following disconnect sets the url
  to \<open>/b\<close>, not to the url before the first redirect.
\<close>

theorem temporary_redirect_chain_counterexample:
  "url testSession = ''http://example.org/events'' \<and>
   url (run testPlatform
     [Response 0 307 ''Temporary Redirect'' (Some ''http://example.org/b''),
      Response 1 307 ''Temporary Redirect'' (Some ''http://example.org/c''),
      ReqError 2 ''socket hang up''] testSession) = ''http://example.org/b''"
  by code_simp

text \<open>
  C5, amended: a response \<open>307\<close> with a non-empty \<open>Location\<close> header, answering a
  request of a session whose url is not empty (the tests \<open>if (!res.headers.location)\<close>
  and \<open>if (reconnectUrl)\<close> are on strings). The handler stores the current url in
  \<open>reconnectUrl\<close>, sets \<open>url\<close> to the target and ends with \<open>connect\<close>: in the same step
  one request is sent, whose target is that of the new url (\<open>targetOf\<close>), and no timer is
  set. At the following disconnect of the session, whatever happened in between except a
  disconnect or another response \<open>307\<close> with a \<open>Location\<close>, \<open>url\<close> is the url before the
  redirect again and \<open>reconnectUrl\<close> is cleared. A disconnect is a call of
  \<open>onConnectionClosed\<close> on a session that is not closed (\<open>disconnects\<close>); there is one
  exactly when a reconnect timer is set (\<open>disconnects_iff_timer\<close>).
\<close>

theorem temporary_redirect:
  assumes "k < length (exchanges s)" and "\<not> answered (exchanges s ! k)"
    and "url s \<noteq> []" and "l \<noteq> []"
  shows "step P (Response k 307 statusMessage (Some l)) s =
           connect P (s\<lparr>exchanges := (exchanges s)[k := (exchanges s ! k)\<lparr>answered := True\<rparr>],
                         connectionInProgress := False,
                         reconnectUrl := Some (url s), url := l\<rparr>) \<and>
         reconnectUrl (step P (Response k 307 statusMessage (Some l)) s) = Some (url s) \<and>
         url (step P (Response k 307 statusMessage (Some l)) s) = l \<and>
         timers (step P (Response k 307 statusMessage (Some l)) s) = timers s \<and>
         butlast (requests (step P (Response k 307 statusMessage (Some l)) s)) = requests s \<and>
         length (requests (step P (Response k 307 statusMessage (Some l)) s)) =
           Suc (length (requests s)) \<and>
         target (last (requests (step P (Response k 307 statusMessage (Some l)) s))) =
           targetOf P (eventSourceInitDict s) l \<and>
         (\<forall>es d.
            undisturbed P es (step P (Response k 307 statusMessage (Some l)) s) \<and>
            disconnects d (run P es (step P (Response k 307 statusMessage (Some l)) s)) \<longrightarrow>
            url (step P d (run P es (step P (Response k 307 statusMessage (Some l)) s))) = url s \<and>
            reconnectUrl (step P d (run P es (step P (Response k 307 statusMessage (Some l)) s)))
              = None)"
proof -
  let ?s1 = "step P (Response k 307 statusMessage (Some l)) s"
  have eq: "?s1 = connect P (s\<lparr>exchanges := (exchanges s)[k := (exchanges s ! k)\<lparr>answered := True\<rparr>],
                         connectionInProgress := False,
                         reconnectUrl := Some (url s), url := l\<rparr>)"
    using assms by (simp add: onResponse_def Let_def)
  have f: "reconnectUrl ?s1 = Some (url s)" "url ?s1 = l" "timers ?s1 = timers s"
    "butlast (requests ?s1) = requests s" "length (requests ?s1) = Suc (length (requests s))"
    unfolding eq by simp_all
  have t: "target (last (requests ?s1)) = targetOf P (eventSourceInitDict s) l"
    unfolding eq connect_target by simp
  have g: "\<And>es d. undisturbed P es ?s1 \<Longrightarrow> disconnects d (run P es ?s1) \<Longrightarrow>
             url (step P d (run P es ?s1)) = url s \<and> reconnectUrl (step P d (run P es ?s1)) = None"
  proof -
    fix es d
    assume u: "undisturbed P es ?s1" and d: "disconnects d (run P es ?s1)"
    have "reconnectUrl (run P es ?s1) = Some (url s)"
      using undisturbed_reconnectUrl[OF u] f(1) by simp
    from disconnect_reverts[OF d this assms(3)]
    show "url (step P d (run P es ?s1)) = url s \<and> reconnectUrl (step P d (run P es ?s1)) = None" .
  qed
  show ?thesis using eq f t g by blast
qed

theorem temporary_redirect_witness:
  "0 < length (exchanges testSession) \<and> \<not> answered (exchanges testSession ! 0) \<and>
   url testSession \<noteq> [] \<and> ''http://example.org/b'' \<noteq> [] \<and>
   url testSession = ''http://example.org/events'' \<and> timers testSession = [] \<and>
   undisturbed testPlatform
     [Response 1 301 ''Moved Permanently'' (Some ''http://example.org/c''),
      Response 2 200 ''OK'' None, Data 2 (''data: x'' @ [lineFeed, lineFeed])]
     (step testPlatform (Response 0 307 ''Temporary Redirect'' (Some ''http://example.org/b''))
        testSession) \<and>
   disconnects (End 2)
     (run testPlatform
        [Response 1 301 ''Moved Permanently'' (Some ''http://example.org/c''),
         Response 2 200 ''OK'' None, Data 2 (''data: x'' @ [lineFeed, lineFeed])]
        (step testPlatform (Response 0 307 ''Temporary Redirect'' (Some ''http://example.org/b''))
           testSession)) \<and>
   reconnectUrl (step testPlatform (Response 0 307 ''Temporary Redirect'' (Some ''http://example.org/b''))
     testSession) = Some (url testSession) \<and>
   url (step testPlatform (Response 0 307 ''Temporary Redirect'' (Some ''http://example.org/b''))
     testSession) = ''http://example.org/b'' \<and>
   timers (step testPlatform (Response 0 307 ''Temporary Redirect'' (Some ''http://example.org/b''))
     testSession) = timers testSession \<and>
   path (target (last (requests
     (step testPlatform (Response 0 307 ''Temporary Redirect'' (Some ''http://example.org/b''))
        testSession)))) = Some ''http://example.org/b'' \<and>
   url (step testPlatform (End 2)
     (run testPlatform
        [Response 1 301 ''Moved Permanently'' (Some ''http://example.org/c''),
         Response 2 200 ''OK'' None, Data 2 (''data: x'' @ [lineFeed, lineFeed])]
        (step testPlatform (Response 0 307 ''Temporary Redirect'' (Some ''http://example.org/b''))
           testSession))) = url testSession"
proof -
  have h1: "0 < length (exchanges testSession)" by code_simp
  have h2: "\<not> answered (exchanges testSession ! 0)" by code_simp
  have h3: "url testSession \<noteq> []" by code_simp
  have h4: "''http://example.org/b'' \<noteq> []" by simp
  have e: "url testSession = ''http://example.org/events''" "timers testSession = []" by code_simp+
  have u: "undisturbed testPlatform
     [Response 1 301 ''Moved Permanently'' (Some ''http://example.org/c''),
      Response 2 200 ''OK'' None, Data 2 (''data: x'' @ [lineFeed, lineFeed])]
     (step testPlatform (Response 0 307 ''Temporary Redirect'' (Some ''http://example.org/b''))
        testSession)" by code_simp
  have d: "disconnects (End 2)
     (run testPlatform
        [Response 1 301 ''Moved Permanently'' (Some ''http://example.org/c''),
         Response 2 200 ''OK'' None, Data 2 (''data: x'' @ [lineFeed, lineFeed])]
        (step testPlatform (Response 0 307 ''Temporary Redirect'' (Some ''http://example.org/b''))
           testSession))" by code_simp
  have p: "path (targetOf testPlatform (eventSourceInitDict testSession) ''http://example.org/b'')
             = Some ''http://example.org/b''" by code_simp
  show ?thesis
    using temporary_redirect[OF h1 h2 h3 h4, of testPlatform "''Temporary Redirect''"]
      h1 h2 h3 h4 e u d p
    by metis
qed
subsection \<open>C6: the closed state\<close>




subsection \<open>C7: rejectUnauthorized\<close>

text \<open>
  C7: the legacy flag is read as \<open>!(eventSourceInitDict && !eventSourceInitDict.rejectUnauthorized)\<close>,
  which is \<open>true\<close> without an init dictionary and the truth value of the flag with one
  (\<open>rejectUnauthorized_resolution\<close>). So an init dictionary that sets neither the flag nor
  \<open>https.rejectUnauthorized\<close>, here one that only gives a header, turns the option off,
  where the claim has it default to enabled.
\<close>

theorem reject_unauthorized_without_flag:
  "properties (last (requests (EventSource testPlatform ''https://example.org/events''
      (Some \<lparr>headers = Some [''Authorization'' \<mapsto> ''token''], rejectUnauthorized = JUndefined,
              createConnection = JUndefined, proxy = None, https = None,
              withCredentials = JUndefined\<rparr>)))) ''rejectUnauthorized'' = Some (JBool False)"
  by code_simp
subsection \<open>C8: a redirect without Location\<close>

text \<open>
  C8: a response \<open>301\<close>, \<open>302\<close> or \<open>307\<close> without a \<open>Location\<close> header (or with an empty
  one), answering a request. An \<open>error\<close> event with the status and the message is
  emitted; no timer is set, no request is sent, \<open>readyState\<close> is unchanged and no listener
  is attached to the response: only \<open>connectionInProgress\<close> is reset, and the request is
  answered.
\<close>

theorem redirect_without_location_stalls:
  assumes "statusCode = 301 \<or> statusCode = 302 \<or> statusCode = 307"
    and "location = None \<or> location = Some []"
    and "k < length (exchanges s)" and "\<not> answered (exchanges s ! k)"
  shows "emitted (step P (Response k statusCode statusMessage location) s) =
           emitted s @ [ErrorEvent (Some statusCode) (Some statusMessage)] \<and>
         timers (step P (Response k statusCode statusMessage location) s) = timers s \<and>
         requests (step P (Response k statusCode statusMessage location) s) = requests s \<and>
         readyState (step P (Response k statusCode statusMessage location) s) = readyState s \<and>
         exchanges (step P (Response k statusCode statusMessage location) s) =
           (exchanges s)[k := (exchanges s ! k)\<lparr>answered := True\<rparr>] \<and>
         step P (Response k statusCode statusMessage location) s =
           s\<lparr>connectionInProgress := False,
              emitted := emitted s @ [ErrorEvent (Some statusCode) (Some statusMessage)],
              exchanges := (exchanges s)[k := (exchanges s ! k)\<lparr>answered := True\<rparr>]\<rparr>"
  using assms by (auto simp: onResponse_def emit_def Let_def)

theorem redirect_without_location_stalls_witness:
  "((301::nat) = 301) \<and> (None :: string option) = None \<and>
   0 < length (exchanges testSession) \<and> \<not> answered (exchanges testSession ! 0) \<and>
   emitted (step testPlatform (Response 0 301 ''Moved Permanently'' None) testSession) =
     [ErrorEvent (Some 301) (Some ''Moved Permanently'')] \<and>
   timers (step testPlatform (Response 0 301 ''Moved Permanently'' None) testSession) = [] \<and>
   length (requests (step testPlatform (Response 0 301 ''Moved Permanently'' None) testSession)) = 1 \<and>
   readyState (step testPlatform (Response 0 301 ''Moved Permanently'' None) testSession) = CONNECTING \<and>
   exchanges (step testPlatform (Response 0 301 ''Moved Permanently'' None) testSession) =
     [\<lparr>answered = True, endListeners = False, reader = None, aborted = False\<rparr>]"
proof -
  have h: "0 < length (exchanges testSession)" "\<not> answered (exchanges testSession ! 0)"
    by code_simp+
  have e: "emitted testSession = []" "timers testSession = []" "length (requests testSession) = 1"
    "readyState testSession = CONNECTING"
    "(exchanges testSession)[0 := (exchanges testSession ! 0)\<lparr>answered := True\<rparr>] =
       [\<lparr>answered = True, endListeners = False, reader = None, aborted = False\<rparr>]"
    by code_simp+
  show ?thesis
    using redirect_without_location_stalls[of 301 None 0 testSession testPlatform
        "''Moved Permanently''"] h e by simp
qed
subsection \<open>C9: the retry field\<close>



subsection \<open>C10: Last-Event-ID given to the constructor\<close>

text \<open>
  C10: when the caller's headers hold a non-empty \<open>Last-Event-ID\<close>, the constructor takes
  it as \<open>lastEventId\<close> and deletes it from the caller's headers, and the first request
  carries it.
\<close>

theorem constructor_takes_last_event_id:
  assumes "headers d = Some hs" and "hs ''Last-Event-ID'' = Some v" and "v \<noteq> []"
  shows "lastEventId (EventSource P u (Some d)) = v \<and>
         eventSourceInitDict (EventSource P u (Some d)) =
           Some (d\<lparr>headers := Some (hs(''Last-Event-ID'' := None))\<rparr>) \<and>
         length (requests (EventSource P u (Some d))) = 1 \<and>
         reqHeaders (hd (requests (EventSource P u (Some d)))) ''Last-Event-ID'' = Some v"
  using assms
  by (auto simp: EventSource_def connect_def Let_def mergeHeaders_def split: option.splits)

theorem constructor_takes_last_event_id_witness:
  "headers \<lparr>headers = Some [''Last-Event-ID'' \<mapsto> ''41'', ''X-Key'' \<mapsto> ''k''],
            rejectUnauthorized = JUndefined, createConnection = JUndefined, proxy = None,
            https = None, withCredentials = JUndefined\<rparr>
     = Some [''Last-Event-ID'' \<mapsto> ''41'', ''X-Key'' \<mapsto> ''k''] \<and>
   [''Last-Event-ID'' \<mapsto> ''41'', ''X-Key'' \<mapsto> ''k''] ''Last-Event-ID'' = Some ''41'' \<and>
   ''41'' \<noteq> [] \<and>
   lastEventId (EventSource testPlatform ''http://example.org/events''
     (Some \<lparr>headers = Some [''Last-Event-ID'' \<mapsto> ''41'', ''X-Key'' \<mapsto> ''k''],
            rejectUnauthorized = JUndefined, createConnection = JUndefined, proxy = None,
            https = None, withCredentials = JUndefined\<rparr>)) = ''41'' \<and>
   reqHeaders (hd (requests (EventSource testPlatform ''http://example.org/events''
     (Some \<lparr>headers = Some [''Last-Event-ID'' \<mapsto> ''41'', ''X-Key'' \<mapsto> ''k''],
            rejectUnauthorized = JUndefined, createConnection = JUndefined, proxy = None,
            https = None, withCredentials = JUndefined\<rparr>)))) ''Last-Event-ID'' = Some ''41''"
proof -
  have h1: "headers \<lparr>headers = Some [''Last-Event-ID'' \<mapsto> ''41'', ''X-Key'' \<mapsto> ''k''],
            rejectUnauthorized = JUndefined, createConnection = JUndefined, proxy = None,
            https = None, withCredentials = JUndefined\<rparr>
     = Some [''Last-Event-ID'' \<mapsto> ''41'', ''X-Key'' \<mapsto> ''k'']" by simp
  have h2: "[''Last-Event-ID'' \<mapsto> ''41'', ''X-Key'' \<mapsto> ''k''] ''Last-Event-ID'' = Some ''41''"
    by simp
  have h3: "''41'' \<noteq> []" by simp
  show ?thesis
    using constructor_takes_last_event_id[OF h1 h2 h3, of testPlatform "''http://example.org/events''"]
      h1 h2 h3 by blast
qed

end
